theory Spec2Isabelle
  imports Main "HOL-Library.Sublist"
begin

section \<open>Strings of the card\<close>

text \<open>
  The card of \<^verbatim>\<open>www/enhanced-shopping-list-card.js\<close> works on JavaScript strings,
  sequences of UTF-16 code units. A \<^typ>\<open>char\<close> stands for a code unit below 256, read as
  in Latin-1, so the model covers the strings made of such code units; white space, line
  terminators and lower case are those of JavaScript on these code units.
\<close>

definition js_space :: "char \<Rightarrow> bool" where
  \<comment> \<open>\<^verbatim>\<open>\s\<close> and the characters removed by \<^verbatim>\<open>trim()\<close>: TAB, LF, VT, FF, CR, SP, NBSP\<close>
  "js_space c = (of_char c \<in> {9, 10, 11, 12, 13, 32, 160 :: nat})"

definition line_terminator :: "char \<Rightarrow> bool" where
  \<comment> \<open>the characters that \<^verbatim>\<open>.\<close> does not match: LF and CR\<close>
  "line_terminator c = (of_char c \<in> {10, 13 :: nat})"

definition digit :: "char \<Rightarrow> bool" where
  \<comment> \<open>\<^verbatim>\<open>\d\<close>\<close>
  "digit c = (48 \<le> (of_char c :: nat) \<and> (of_char c :: nat) \<le> 57)"

definition trim :: "string \<Rightarrow> string" where
  "trim s = rev (dropWhile js_space (rev (dropWhile js_space s)))"

fun indexOf :: "string \<Rightarrow> string \<Rightarrow> int" where
  "indexOf [] p = (if p = [] then 0 else - 1)"
| "indexOf (c # cs) p =
     (if prefix p (c # cs) then 0
      else (let i = indexOf cs p in if i < 0 then - 1 else i + 1))"

definition includes_str :: "string \<Rightarrow> string \<Rightarrow> bool" where
  "includes_str s p = (indexOf s p \<noteq> - 1)"

definition substring :: "string \<Rightarrow> int \<Rightarrow> int \<Rightarrow> string" where
  \<comment> \<open>\<^verbatim>\<open>s.substring(a, b)\<close> for \<open>0 \<le> a \<le> b\<close>\<close>
  "substring s a b = drop (nat a) (take (nat b) s)"

definition substring_from :: "string \<Rightarrow> int \<Rightarrow> string" where
  \<comment> \<open>\<^verbatim>\<open>s.substring(a)\<close>\<close>
  "substring_from s a = drop (nat a) s"

definition lower_char :: "char \<Rightarrow> char" where
  "lower_char c =
     (let n = (of_char c :: nat)
      in if (65 \<le> n \<and> n \<le> 90) \<or> (192 \<le> n \<and> n \<le> 222 \<and> n \<noteq> 215)
         then char_of (n + 32) else c)"

definition toLowerCase :: "string \<Rightarrow> string" where
  "toLowerCase s = map lower_char s"

section \<open>Numbers of the card\<close>

text \<open>
  A quantity is a JavaScript Number, a double. The card reads quantities with
  \<^verbatim>\<open>parseInt\<close> from a string of decimal digits, adds 1 to them and takes their maximum
  with 1, so the Numbers it works on are integers that a double holds exactly, and
  \<^verbatim>\<open>Infinity\<close>, which \<^verbatim>\<open>parseInt\<close> returns for digits whose value is past the largest
  double. \<open>Finite i\<close> stands for the Number of value \<open>i\<close>, and \<open>is_number\<close> tells whether
  there is such a Number.
\<close>

datatype number = Finite int | Infinity

function bits :: "int \<Rightarrow> nat" where
  \<comment> \<open>the length of the binary numeral\<close>
  "bits n = (if n \<le> 0 then 0 else Suc (bits (n div 2)))"
  by pat_completeness auto
termination
  by (relation "measure nat") auto

declare bits.simps [simp del]

definition round_double :: "int \<Rightarrow> int" where
  \<comment> \<open>the value of the double nearest to \<open>v\<close>, as long as the exponent is in range: the
     nearest \<open>m * 2 ^ e\<close> with a significand \<open>m\<close> of 53 bits, the even \<open>m\<close> when two are
     equally near\<close>
  "round_double v =
     (if \<bar>v\<bar> < 2 ^ 53 then v
      else (let e = bits \<bar>v\<bar> - 53; m = \<bar>v\<bar> div 2 ^ e; r = \<bar>v\<bar> mod 2 ^ e; h = 2 ^ (e - 1)
            in sgn v * ((if h < r \<or> (r = h \<and> odd m) then m + 1 else m) * 2 ^ e)))"

definition infinity_bound :: int where
  \<comment> \<open>a value that rounds to this or more is past the largest double\<close>
  "infinity_bound = 2 ^ 1024"

definition to_number :: "int \<Rightarrow> number" where
  \<comment> \<open>the Number for a mathematical value \<open>v\<close>: its nearest double, \<^verbatim>\<open>Infinity\<close> past the
     largest one (the card computes no value below the smallest one)\<close>
  "to_number v = (if round_double v < infinity_bound then Finite (round_double v) else Infinity)"

definition is_number :: "number \<Rightarrow> bool" where
  \<comment> \<open>\<open>x\<close> is \<^verbatim>\<open>Infinity\<close> or an integer that is the value of a double\<close>
  "is_number x =
     (case x of
        Infinity \<Rightarrow> True
      | Finite i \<Rightarrow> round_double i = i \<and> \<bar>i\<bar> < infinity_bound)"

text \<open>The order of the Numbers, for \<^verbatim>\<open>qty > 1\<close> and \<^verbatim>\<open>Math.max(1, newQty)\<close>.\<close>

instantiation number :: "{zero, one, linorder}"
begin

definition zero_number :: number where
  "zero_number = Finite 0"

definition one_number :: number where
  "one_number = Finite 1"

fun less_eq_number :: "number \<Rightarrow> number \<Rightarrow> bool" where
  "less_eq_number (Finite a) (Finite b) = (a \<le> b)"
| "less_eq_number x Infinity = True"
| "less_eq_number Infinity (Finite b) = False"

definition less_number :: "number \<Rightarrow> number \<Rightarrow> bool" where
  "less_number x y = (x \<le> y \<and> \<not> y \<le> x)"

instance
proof
  fix x y z :: number
  show "(x < y) = (x \<le> y \<and> \<not> y \<le> x)" by (simp add: less_number_def)
  show "x \<le> x" by (cases x) simp_all
  show "x \<le> y \<Longrightarrow> y \<le> z \<Longrightarrow> x \<le> z" by (cases x; cases y; cases z) simp_all
  show "x \<le> y \<Longrightarrow> y \<le> x \<Longrightarrow> x = y" by (cases x; cases y) simp_all
  show "x \<le> y \<or> y \<le> x" by (cases x; cases y) auto
qed

end

definition plus_one :: "number \<Rightarrow> number" where
  \<comment> \<open>\<^verbatim>\<open>x + 1\<close>, the sum of two doubles\<close>
  "plus_one x = (case x of Infinity \<Rightarrow> Infinity | Finite i \<Rightarrow> to_number (i + 1))"

subsection \<open>Decimal numerals\<close>

function decimal :: "int \<Rightarrow> string" where
  \<comment> \<open>the decimal numeral of a natural number\<close>
  "decimal n =
     (if n < 10 then [char_of (48 + n)]
      else decimal (n div 10) @ [char_of (48 + n mod 10)])"
  by pat_completeness auto
termination
  by (relation "measure nat") auto

declare decimal.simps [simp del]

text \<open>
  \<^verbatim>\<open>`${qty}`\<close> is Number::toString. Its digits are those of the decimal numeral with the
  fewest significant digits among the numerals that denote the Number, that is, whose
  nearest double it is, and of the nearest to it among these; \<open>shortest x z\<close> looks for
  this numeral among the multiples of \<open>10 ^ z\<close>, then of the lower powers of 10. Up to 21
  digits the numeral is written out, a longer one is written with an exponent.
\<close>

fun shortest :: "int \<Rightarrow> nat \<Rightarrow> int" where
  "shortest x 0 = x"
| "shortest x (Suc z) =
     (let u = 10 ^ Suc z; lo = x div u * u; hi = lo + u;
          lo_ok = (round_double lo = x); hi_ok = (round_double hi = x)
      in if lo_ok \<and> hi_ok
         then (if x - lo < hi - x \<or> (x - lo = hi - x \<and> even (x div u)) then lo else hi)
         else if lo_ok then lo
         else if hi_ok then hi
         else shortest x z)"

definition magnitude_to_string :: "int \<Rightarrow> string" where
  \<comment> \<open>Number::toString on a Number of value \<open>x \<ge> 0\<close>\<close>
  "magnitude_to_string x =
     (let ds = decimal (shortest x (length (decimal x) - 1));
          n = length ds;
          sig = rev (dropWhile (\<lambda>c. c = CHR ''0'') (rev ds))
      in if n \<le> 21 then ds
         else (case sig of
                 [] \<Rightarrow> []
               | d # r \<Rightarrow> d # (if r = [] then [] else CHR ''.'' # r))
              @ ''e+'' @ decimal (int (n - 1)))"

definition number_to_string :: "number \<Rightarrow> string" where
  \<comment> \<open>\<^verbatim>\<open>`${x}`\<close>\<close>
  "number_to_string x =
     (case x of
        Infinity \<Rightarrow> ''Infinity''
      | Finite i \<Rightarrow>
          if i < 0 then CHR ''-'' # magnitude_to_string (- i) else magnitude_to_string i)"

definition digit_val :: "char \<Rightarrow> int" where
  "digit_val c = of_char c - 48"

definition numeral_value :: "string \<Rightarrow> int" where
  \<comment> \<open>the value of a decimal numeral\<close>
  "numeral_value ds = foldl (\<lambda>a c. 10 * a + digit_val c) 0 ds"

definition parseInt :: "string \<Rightarrow> number" where
  \<comment> \<open>\<^verbatim>\<open>parseInt(ds, 10)\<close> on a string of decimal digits, the only strings the card
     gives it (the match of \<^verbatim>\<open>(\d+)\<close>): the Number for the value of the numeral\<close>
  "parseInt ds = to_number (numeral_value ds)"

section \<open>Summary codec\<close>

text \<open>
  \<^verbatim>\<open>/^(.+?)\s*\[([^\]]+)\]$/\<close> and \<^verbatim>\<open>/^(.+?)\s*\((\d+)\)$/\<close>. The first group is lazy:
  it takes one character that is not a line terminator, then tries the rest of the
  pattern before it takes another one; \<open>lazy_group\<close> is this search, with the rest of the
  pattern as \<open>k\<close>. In the rest nothing can be given back: \<^verbatim>\<open>\s*\<close> is followed by a
  bracket, which is no space, and the greedy class is followed by a bracket, which is not
  in the class. So the rest either matches in one way or fails. Both patterns are anchored
  at the two ends of the string, and \<^verbatim>\<open>$\<close> is the end of the input.
\<close>

fun lazy_group :: "(string \<Rightarrow> 'a option) \<Rightarrow> string \<Rightarrow> string \<Rightarrow> (string \<times> 'a) option" where
  "lazy_group k acc [] = None"
| "lazy_group k acc (c # cs) =
     (if line_terminator c then None
      else (case k cs of
              Some g \<Rightarrow> Some (acc @ [c], g)
            | None \<Rightarrow> lazy_group k (acc @ [c]) cs))"

definition bracket_rest :: "char \<Rightarrow> char \<Rightarrow> (char \<Rightarrow> bool) \<Rightarrow> string \<Rightarrow> string option" where
  \<comment> \<open>\<^verbatim>\<open>\s*\<close>, the opening bracket, one or more characters of the class, the closing
     bracket, the end of the string\<close>
  "bracket_rest opn cls ok s =
     (case dropWhile js_space s of
        [] \<Rightarrow> None
      | c # r \<Rightarrow>
          if c = opn \<and> takeWhile ok r \<noteq> [] \<and> dropWhile ok r = [cls]
          then Some (takeWhile ok r) else None)"

definition match_category :: "string \<Rightarrow> (string \<times> string) option" where
  "match_category s =
     lazy_group (bracket_rest (CHR ''['') (CHR '']'') (\<lambda>c. c \<noteq> CHR '']'')) [] s"

definition match_quantity :: "string \<Rightarrow> (string \<times> string) option" where
  "match_quantity s = lazy_group (bracket_rest (CHR ''('') (CHR '')'') digit) [] s"

definition parseSummary :: "string \<Rightarrow> string \<times> number \<times> string \<times> string" where
  \<comment> \<open>returns \<^verbatim>\<open>{ name, qty, notes, category }\<close>\<close>
  "parseSummary summary =
     (let s = trim summary;
          noteIdx = indexOf s '' // '';
          notes = (if noteIdx \<ge> 0 then trim (substring_from s (noteIdx + 4)) else []);
          name1 = (if noteIdx \<ge> 0 then trim (substring s 0 noteIdx) else s);
          catMatch = match_category name1;
          name2 = (case catMatch of Some (g1, g2) \<Rightarrow> trim g1 | None \<Rightarrow> name1);
          category = (case catMatch of Some (g1, g2) \<Rightarrow> trim g2 | None \<Rightarrow> []);
          qm = match_quantity name2;
          name3 = (case qm of Some (g1, g2) \<Rightarrow> trim g1 | None \<Rightarrow> name2);
          qty = (case qm of Some (g1, g2) \<Rightarrow> parseInt g2 | None \<Rightarrow> 1)
      in (name3, qty, notes, category))"

definition formatSummary :: "string \<Rightarrow> number \<Rightarrow> string \<Rightarrow> string \<Rightarrow> string" where
  "formatSummary name qty notes category =
     (let s = (if qty > 1 then name @ '' ('' @ number_to_string qty @ '')'' else name);
          s = (if category \<noteq> [] then s @ '' ['' @ category @ '']'' else s);
          s = (if notes \<noteq> [] then s @ '' // '' @ notes else s)
      in s)"

definition reencode :: "string \<Rightarrow> string" where
  \<comment> \<open>\<^verbatim>\<open>formatSummary\<close> applied to the fields of \<^verbatim>\<open>parseSummary(s)\<close>\<close>
  "reencode s = (case parseSummary s of (n, q, no, ca) \<Rightarrow> formatSummary n q no ca)"

definition delimiter_free :: "string \<Rightarrow> bool" where
  \<comment> \<open>the string holds none of the tokens \<^verbatim>\<open>" // "\<close>, \<^verbatim>\<open>(\<close>, \<^verbatim>\<open>)\<close>, \<^verbatim>\<open>[\<close>, \<^verbatim>\<open>]\<close>\<close>
  "delimiter_free s =
     (\<not> includes_str s '' // '' \<and> CHR ''('' \<notin> set s \<and> CHR '')'' \<notin> set s
      \<and> CHR ''['' \<notin> set s \<and> CHR '']'' \<notin> set s)"

section \<open>Fuzzy matcher\<close>

function fuzzy_loop :: "string \<Rightarrow> string \<Rightarrow> nat \<Rightarrow> nat \<Rightarrow> int \<Rightarrow> int \<Rightarrow> nat \<times> int" where
  \<comment> \<open>the \<^verbatim>\<open>for\<close> loop of \<^verbatim>\<open>fuzzyScore\<close>; returns the final \<^verbatim>\<open>qi\<close> and \<^verbatim>\<open>score\<close>\<close>
  "fuzzy_loop t q ti qi score lastIdx =
     (if ti < length t \<and> qi < length q then
        (if t ! ti = q ! qi then
           fuzzy_loop t q (ti + 1) (qi + 1)
             (if lastIdx \<noteq> - 1 \<and> int ti - lastIdx = 1 then score + 10 + 5 else score + 10)
             (int ti)
         else fuzzy_loop t q (ti + 1) qi score lastIdx)
      else (qi, score))"
  by pat_completeness auto
termination
  by (relation "measure (\<lambda>(t, q, ti, qi, score, lastIdx). length t - ti)") auto

declare fuzzy_loop.simps [simp del]

definition fuzzyScore :: "string \<Rightarrow> string \<Rightarrow> int" where
  "fuzzyScore query target =
     (let q = toLowerCase query; t = toLowerCase target
      in if includes_str t q then 1000 - indexOf t q
         else (case fuzzy_loop t q 0 0 0 (- 1) of
                 (qi, score) \<Rightarrow> if qi = length q then score else 0))"

section \<open>Reconciliation engine\<close>

text \<open>
  The card keeps its snapshot in \<^verbatim>\<open>this._items\<close> and its pending quantity writes in
  \<^verbatim>\<open>this._qtyTimers\<close>. The host is modelled with it: the table of pending timeouts, a
  clock in milliseconds, the trace of the remote calls issued so far and the console.
  The DOM is not modelled; \<^verbatim>\<open>_updateLists\<close> and \<^verbatim>\<open>_hideSuggestions\<close> only redraw it.
\<close>

record item =
  uid :: string
  name :: string
  quantity :: number
  "notes" :: string
  category :: string
  status :: string
  summary :: string

record raw_item =
  raw_uid :: string
  raw_summary :: string
  raw_status :: string

datatype service_data =
    Item string                   \<comment> \<open>\<^verbatim>\<open>{ item: summary }\<close>\<close>
  | Item_rename string string     \<comment> \<open>\<^verbatim>\<open>{ item: uid, rename: summary }\<close>\<close>
  | Item_status string string     \<comment> \<open>\<^verbatim>\<open>{ item: uid, status: s }\<close>\<close>
  | Items "string list"           \<comment> \<open>\<^verbatim>\<open>{ item: [uid, ...] }\<close>\<close>

datatype remote_call =
    CallService string service_data string
      \<comment> \<open>\<^verbatim>\<open>hass.callService("todo", service, data, { entity_id })\<close>\<close>
  | CallWS string
      \<comment> \<open>\<^verbatim>\<open>hass.callWS({ type: "todo/item/list", entity_id })\<close>\<close>

record timer =
  handle :: nat
  due :: nat
  c_uid :: string        \<comment> \<open>the variables captured by the callback of \<^verbatim>\<open>_updateQuantity\<close>\<close>
  c_name :: string
  c_q :: number
  c_notes :: string
  c_category :: string

record card =
  hass :: bool                         \<comment> \<open>\<^verbatim>\<open>this._hass\<close> is set\<close>
  entity :: string                     \<comment> \<open>\<^verbatim>\<open>this._config.entity\<close>, empty when unset\<close>
  items :: "item list"
  inputValue :: string
  qtyTimers :: "string \<Rightarrow> nat option"
  timers :: "timer list"               \<comment> \<open>host: pending timeouts, oldest first\<close>
  nextHandle :: nat
  clock :: nat
  calls :: "remote_call list"          \<comment> \<open>host: remote calls issued, oldest first\<close>
  console :: "(string \<times> string) list"

record host =
  service_reply :: "nat \<Rightarrow> string option"
    \<comment> \<open>the reply to the service call that is the n-th remote call: resolved, or rejected
       with an error\<close>
  ws_reply :: "nat \<Rightarrow> string + raw_item list option"
    \<comment> \<open>the reply to the list call that is the n-th remote call: rejected with an error,
       or resolved with a result whose \<^verbatim>\<open>items\<close> may be missing\<close>

text \<open>
  An asynchronous method is run to completion: it maps the card to the card it leaves and
  to the way its promise settles, \<open>None\<close> when it resolves and \<open>Some e\<close> when it rejects.
\<close>

type_synonym proc = "card \<Rightarrow> string option \<times> card"

definition andThen :: "proc \<Rightarrow> proc \<Rightarrow> proc" where
  \<comment> \<open>\<^verbatim>\<open>await p; q\<close>\<close>
  "andThen p q st = (case p st of (None, st1) \<Rightarrow> q st1 | (Some e, st1) \<Rightarrow> (Some e, st1))"

definition tryCatch :: "proc \<Rightarrow> (string \<Rightarrow> proc) \<Rightarrow> proc" where
  "tryCatch p h st = (case p st of (None, st1) \<Rightarrow> (None, st1) | (Some e, st1) \<Rightarrow> h e st1)"

definition updateLists :: proc where
  "updateLists st = (None, st)"

definition from_raw :: "raw_item \<Rightarrow> item" where
  "from_raw it =
     (case parseSummary (raw_summary it) of
        (n, q, no, ca) \<Rightarrow>
          \<lparr>uid = raw_uid it, name = n, quantity = q, notes = no,
           category = ca, status = raw_status it, summary = raw_summary it\<rparr>)"

definition fetchItems_try :: "host \<Rightarrow> proc" where
  \<comment> \<open>the \<^verbatim>\<open>try\<close> block of \<^verbatim>\<open>_fetchItems\<close>\<close>
  "fetchItems_try env st =
     (let n = length (calls st);
          st1 = st\<lparr>calls := calls st @ [CallWS (entity st)]\<rparr>
      in case ws_reply env n of
           Inl e \<Rightarrow> (Some e, st1)
         | Inr res \<Rightarrow>
             updateLists
               (st1\<lparr>items := map from_raw (case res of None \<Rightarrow> [] | Some its \<Rightarrow> its)\<rparr>))"

definition fetchItems :: "host \<Rightarrow> proc" where
  "fetchItems env st =
     (if \<not> hass st \<or> entity st = [] then (None, st)
      else tryCatch (fetchItems_try env)
             (\<lambda>e st'. (None, st'\<lparr>console := console st' @ [(''ESL: fetch failed'', e)]\<rparr>)) st)"

definition callService :: "host \<Rightarrow> string \<Rightarrow> service_data \<Rightarrow> proc" where
  "callService env service data st =
     (if \<not> hass st then (None, st)
      else tryCatch
             (\<lambda>st'. (service_reply env (length (calls st')),
                     st'\<lparr>calls := calls st' @ [CallService service data (entity st')]\<rparr>))
             (\<lambda>e st'. (None,
                     st'\<lparr>console := console st' @ [(''ESL: todo.'' @ service @ '' error'', e)]\<rparr>))
             st)"

definition addItem :: "host \<Rightarrow> string \<Rightarrow> number \<Rightarrow> string \<Rightarrow> string \<Rightarrow> proc" where
  "addItem env name' qty notes' category' =
     andThen (callService env ''add_item'' (Item (formatSummary name' qty notes' category')))
       (fetchItems env)"

definition clearTimeout :: "nat option \<Rightarrow> card \<Rightarrow> card" where
  "clearTimeout h st =
     (case h of
        None \<Rightarrow> st
      | Some n \<Rightarrow> st\<lparr>timers := filter (\<lambda>t. handle t \<noteq> n) (timers st)\<rparr>)"

definition setTimeout :: "string \<Rightarrow> string \<Rightarrow> number \<Rightarrow> string \<Rightarrow> string \<Rightarrow> nat \<Rightarrow> card \<Rightarrow> nat \<times> card" where
  \<comment> \<open>\<^verbatim>\<open>setTimeout(callback, delay)\<close> for the callback of \<^verbatim>\<open>_updateQuantity\<close>, given by
     the variables it captures\<close>
  "setTimeout u n q no ca delay st =
     (nextHandle st,
      st\<lparr>timers := timers st @
            [\<lparr>handle = nextHandle st, due = clock st + delay, c_uid = u, c_name = n,
              c_q = q, c_notes = no, c_category = ca\<rparr>],
         nextHandle := nextHandle st + 1\<rparr>)"

fun mutate_first :: "('a \<Rightarrow> bool) \<Rightarrow> ('a \<Rightarrow> 'a) \<Rightarrow> 'a list \<Rightarrow> 'a list" where
  \<comment> \<open>\<^verbatim>\<open>const li = xs.find(p); if (li) { ...assignments to li... }\<close>\<close>
  "mutate_first p f [] = []"
| "mutate_first p f (x # xs) = (if p x then f x # xs else x # mutate_first p f xs)"

definition updateQuantity :: "item \<Rightarrow> number \<Rightarrow> card \<Rightarrow> card" where
  "updateQuantity item newQty st =
     (let q = max 1 newQty;
          li = find (\<lambda>i. uid i = uid item) (items st);
          name' = (case li of Some l \<Rightarrow> name l | None \<Rightarrow> name item);
          notes' = (case li of Some l \<Rightarrow> notes l | None \<Rightarrow> notes item);
          category' = (case li of Some l \<Rightarrow> category l | None \<Rightarrow> category item);
          st1 = st\<lparr>items := mutate_first (\<lambda>i. uid i = uid item)
                   (\<lambda>l. l\<lparr>quantity := q, summary := formatSummary name' q notes' category'\<rparr>)
                   (items st)\<rparr>;
          st2 = clearTimeout (qtyTimers st1 (uid item)) st1;
          (h, st3) = setTimeout (uid item) name' q notes' category' 500 st2
      in st3\<lparr>qtyTimers := (qtyTimers st3)(uid item \<mapsto> h)\<rparr>)"

definition qtyTimer_fire :: "host \<Rightarrow> timer \<Rightarrow> proc" where
  \<comment> \<open>the callback given to \<^verbatim>\<open>setTimeout\<close> by \<^verbatim>\<open>_updateQuantity\<close>\<close>
  "qtyTimer_fire env t =
     andThen (\<lambda>st. (None, st\<lparr>qtyTimers := (qtyTimers st)(c_uid t := None)\<rparr>))
       (andThen
          (callService env ''update_item''
             (Item_rename (c_uid t) (formatSummary (c_name t) (c_q t) (c_notes t) (c_category t))))
          (fetchItems env))"

definition updateName :: "host \<Rightarrow> item \<Rightarrow> string \<Rightarrow> proc" where
  "updateName env item newName st =
     (let li = find (\<lambda>i. uid i = uid item) (items st);
          category' = (case li of Some l \<Rightarrow> category l | None \<Rightarrow> category item)
      in andThen
           (callService env ''update_item''
              (Item_rename (uid item)
                 (formatSummary (trim newName) (quantity item) (notes item) category')))
           (fetchItems env) st)"

definition updateNotes :: "host \<Rightarrow> item \<Rightarrow> string \<Rightarrow> proc" where
  "updateNotes env item notes' st =
     (let li = find (\<lambda>i. uid i = uid item) (items st);
          name' = (case li of Some l \<Rightarrow> name l | None \<Rightarrow> name item);
          qty = (case li of Some l \<Rightarrow> quantity l | None \<Rightarrow> quantity item);
          category' = (case li of Some l \<Rightarrow> category l | None \<Rightarrow> category item)
      in andThen
           (callService env ''update_item''
              (Item_rename (uid item) (formatSummary name' qty notes' category')))
           (andThen
              (\<lambda>st'. (None, st'\<lparr>items := mutate_first (\<lambda>i. uid i = uid item)
                                  (\<lambda>l. l\<lparr>notes := notes'\<rparr>) (items st')\<rparr>))
              (fetchItems env)) st)"

definition updateCategory :: "host \<Rightarrow> item \<Rightarrow> string \<Rightarrow> proc" where
  "updateCategory env item category' st =
     (let li = find (\<lambda>i. uid i = uid item) (items st);
          name' = (case li of Some l \<Rightarrow> name l | None \<Rightarrow> name item);
          qty = (case li of Some l \<Rightarrow> quantity l | None \<Rightarrow> quantity item);
          notes' = (case li of Some l \<Rightarrow> notes l | None \<Rightarrow> notes item)
      in andThen
           (callService env ''update_item''
              (Item_rename (uid item) (formatSummary name' qty notes' category')))
           (andThen
              (\<lambda>st'. (None, st'\<lparr>items := mutate_first (\<lambda>i. uid i = uid item)
                                  (\<lambda>l. l\<lparr>category := category'\<rparr>) (items st')\<rparr>))
              (fetchItems env)) st)"

definition addCurrentInput :: "host \<Rightarrow> proc" where
  "addCurrentInput env st =
     (let name' = trim (inputValue st)
      in if name' = [] then (None, st)
         else andThen
                (case find (\<lambda>i. status i = ''needs_action''
                                 \<and> toLowerCase (name i) = toLowerCase name') (items st) of
                   Some active \<Rightarrow>
                     (\<lambda>st'. (None, updateQuantity active (plus_one (quantity active)) st'))
                 | None \<Rightarrow>
                     (case find (\<lambda>i. status i = ''completed''
                                      \<and> toLowerCase (name i) = toLowerCase name') (items st) of
                        Some completed \<Rightarrow>
                          andThen
                            (callService env ''update_item''
                               (Item_status (uid completed) ''needs_action''))
                            (fetchItems env)
                      | None \<Rightarrow> addItem env name' 1 [] []))
                (\<lambda>st'. (None, st'\<lparr>inputValue := []\<rparr>)) st)"

subsection \<open>The passing of time\<close>

text \<open>
  When \<open>d\<close> milliseconds pass, the host runs the callbacks of the timeouts that have come
  due, oldest first. A rejection of a callback is not handled by anyone.
\<close>

fun fire_all :: "host \<Rightarrow> timer list \<Rightarrow> card \<Rightarrow> card" where
  "fire_all env [] st = st"
| "fire_all env (t # ts) st = fire_all env ts (snd (qtyTimer_fire env t st))"

definition elapse :: "host \<Rightarrow> nat \<Rightarrow> card \<Rightarrow> card" where
  "elapse env d st =
     (let now = clock st + d
      in fire_all env (filter (\<lambda>t. due t \<le> now) (timers st))
           (st\<lparr>clock := now, timers := filter (\<lambda>t. \<not> due t \<le> now) (timers st)\<rparr>))"

fun rapid :: "host \<Rightarrow> (item \<times> number \<times> nat) list \<Rightarrow> card \<Rightarrow> card" where
  \<comment> \<open>a run of \<^verbatim>\<open>_updateQuantity\<close> calls, each followed by a pause\<close>
  "rapid env [] st = st"
| "rapid env ((item, newQty, gap) # cs) st =
     rapid env cs (elapse env gap (updateQuantity item newQty st))"

definition updates_for :: "string \<Rightarrow> remote_call list \<Rightarrow> remote_call list" where
  \<comment> \<open>the \<^verbatim>\<open>update_item\<close> calls of a trace that write to the item \<open>u\<close>\<close>
  "updates_for u cs =
     filter (\<lambda>c. case c of
                   CallService s (Item_rename u' r) e \<Rightarrow> s = ''update_item'' \<and> u' = u
                 | CallService s (Item_status u' r) e \<Rightarrow> s = ''update_item'' \<and> u' = u
                 | _ \<Rightarrow> False) cs"

definition service_calls :: "remote_call list \<Rightarrow> remote_call list" where
  "service_calls cs = filter (\<lambda>c. case c of CallService s d e \<Rightarrow> True | CallWS e \<Rightarrow> False) cs"

definition scheduled :: "item \<Rightarrow> number \<Rightarrow> card \<Rightarrow> timer" where
  \<comment> \<open>the timeout that \<^verbatim>\<open>_updateQuantity(item, newQty)\<close> sets on the card \<open>st\<close>\<close>
  "scheduled item newQty st =
     (let li = find (\<lambda>i. uid i = uid item) (items st)
      in \<lparr>handle = nextHandle st, due = clock st + 500, c_uid = uid item,
          c_name = (case li of Some l \<Rightarrow> name l | None \<Rightarrow> name item),
          c_q = max 1 newQty,
          c_notes = (case li of Some l \<Rightarrow> notes l | None \<Rightarrow> notes item),
          c_category = (case li of Some l \<Rightarrow> category l | None \<Rightarrow> category item)\<rparr>)"

definition rename_call :: "string \<Rightarrow> timer \<Rightarrow> remote_call" where
  \<comment> \<open>the \<^verbatim>\<open>update_item\<close> call of the callback of a timeout\<close>
  "rename_call e t =
     CallService ''update_item''
       (Item_rename (c_uid t) (formatSummary (c_name t) (c_q t) (c_notes t) (c_category t))) e"

definition fire_trace :: "bool \<Rightarrow> string \<Rightarrow> timer \<Rightarrow> remote_call list" where
  \<comment> \<open>the remote calls that the callback of a timeout issues on a card with the given
     \<^verbatim>\<open>_hass\<close> and entity\<close>
  "fire_trace h e t =
     (if h then [rename_call e t] else []) @ (if h \<and> e \<noteq> [] then [CallWS e] else [])"

definition timers_ok :: "card \<Rightarrow> bool" where
  \<comment> \<open>every pending timeout is the one registered for its item in \<^verbatim>\<open>_qtyTimers\<close>\<close>
  "timers_ok st =
     (distinct (map handle (timers st)) \<and>
      (\<forall>t \<in> set (timers st).
         qtyTimers st (c_uid t) = Some (handle t) \<and> handle t < nextHandle st))"

definition initial :: "string \<Rightarrow> card" where
  \<comment> \<open>a connected card for the entity \<open>e\<close>: empty snapshot, as the constructor leaves it, no
     pending timeout and an empty trace\<close>
  "initial e =
     \<lparr>hass = True, entity = e, items = [], inputValue = [], qtyTimers = (\<lambda>u. None),
      timers = [], nextHandle = 1, clock = 0, calls = [], console = []\<rparr>"

definition add_calls :: "remote_call list \<Rightarrow> remote_call list" where
  "add_calls cs =
     filter (\<lambda>c. case c of CallService s d e \<Rightarrow> s = ''add_item'' | CallWS e \<Rightarrow> False) cs"

subsection \<open>Example cards\<close>

definition milk :: item where
  "milk = \<lparr>uid = ''1'', name = ''Milk'', quantity = 1, notes = [], category = [],
           status = ''needs_action'', summary = ''Milk''\<rparr>"

definition rice :: item where
  "rice = \<lparr>uid = ''2'', name = ''Rice'', quantity = 1, notes = [], category = [],
           status = ''completed'', summary = ''Rice''\<rparr>"

definition pantry :: card where
  "pantry = (initial ''todo.shopping'')\<lparr>items := [milk, rice]\<rparr>"

definition typed :: "string \<Rightarrow> card" where
  \<comment> \<open>the pantry card with a text in its input field\<close>
  "typed v = pantry\<lparr>inputValue := v\<rparr>"

definition offline :: host where
  \<comment> \<open>service calls resolve, the list call is rejected\<close>
  "offline = \<lparr>service_reply = (\<lambda>n. None), ws_reply = (\<lambda>n. Inl ''offline'')\<rparr>"

definition stocked :: host where
  \<comment> \<open>service calls resolve, the list call returns one item with a large quantity\<close>
  "stocked =
     \<lparr>service_reply = (\<lambda>n. None),
      ws_reply = (\<lambda>n. Inr (Some [\<lparr>raw_uid = ''1'',
                                       raw_summary = ''Milk (9007199254740992)'',
                                       raw_status = ''needs_action''\<rparr>]))\<rparr>"

definition online :: host where
  \<comment> \<open>service calls resolve, the list call returns one item\<close>
  "online =
     \<lparr>service_reply = (\<lambda>n. None),
      ws_reply = (\<lambda>n. Inr (Some [\<lparr>raw_uid = ''7'',
                                       raw_summary = ''Bread (3) [Bakery] // whole grain'',
                                       raw_status = ''needs_action''\<rparr>]))\<rparr>"

section \<open>Properties\<close>

subsection \<open>Numbers\<close>

lemma less_Finite [simp]: "Finite a < Finite b \<longleftrightarrow> a < b"
  by (auto simp: less_number_def)

lemma less_Infinity [simp]: "Finite a < Infinity" "\<not> Infinity < x"
  by (simp_all add: less_number_def)

lemma Infinity_le [simp]: "Infinity \<le> x \<longleftrightarrow> x = Infinity"
  by (cases x) simp_all

lemma number_one [simp]:
  "1 < Finite i \<longleftrightarrow> 1 < i" "Finite i \<le> 1 \<longleftrightarrow> i \<le> 1" "1 \<le> Finite i \<longleftrightarrow> 1 \<le> i"
  "Finite i < 1 \<longleftrightarrow> i < 1" "(1::number) < Infinity" "(1::number) \<noteq> Infinity"
  "Finite i = 1 \<longleftrightarrow> i = 1" "1 = Finite i \<longleftrightarrow> i = 1"
  by (auto simp: one_number_def)

lemma number_zero [simp]:
  "0 \<le> Finite i \<longleftrightarrow> 0 \<le> i" "0 < Finite i \<longleftrightarrow> 0 < i" "(0::number) \<le> Infinity"
  "(0::number) \<le> 1"
  by (simp_all add: zero_number_def one_number_def)

lemma round_double_small: "\<bar>v\<bar> < 2 ^ 53 \<Longrightarrow> round_double v = v"
  by (simp add: round_double_def)

lemma bits_lower: "0 < n \<Longrightarrow> 2 ^ (bits n - 1) \<le> n"
proof (induction n rule: bits.induct)
  case (1 n)
  show ?case
  proof (cases "n div 2 = 0")
    case True
    then have "bits (n div 2) = 0" by (simp add: bits.simps)
    with 1(2) have "bits n = 1" by (subst bits.simps) simp
    with 1(2) show ?thesis by simp
  next
    case False
    with 1(2) have p: "0 < n div 2" by (simp add: pos_imp_zdiv_pos_iff)
    then have b: "bits (n div 2) = Suc (bits (n div 2 div 2))" by (subst bits.simps) simp
    have "bits n = Suc (bits (n div 2))" using 1(2) by (subst bits.simps) simp
    then have "(2::int) ^ (bits n - 1) = 2 * 2 ^ (bits (n div 2) - 1)" using b by simp
    also have "\<dots> \<le> 2 * (n div 2)" using 1(1)[OF _ p] 1(2) by simp
    also have "\<dots> \<le> n" by simp
    finally show ?thesis .
  qed
qed

lemma round_double_pos: "0 < v \<Longrightarrow> 0 < round_double v"
proof (cases "\<bar>v\<bar> < 2 ^ 53")
  case True
  assume "0 < v"
  with True show ?thesis by (simp add: round_double_def)
next
  case False
  assume v: "0 < v"
  define e where "e = bits v - 53"
  have "(2::int) ^ e \<le> 2 ^ (bits v - 1)" unfolding e_def by (rule power_increasing) simp_all
  also have "\<dots> \<le> v" using v by (rule bits_lower)
  finally have "2 ^ e \<le> v" .
  then have "0 < v div 2 ^ e" by (simp add: pos_imp_zdiv_pos_iff)
  then have m: "0 < (if 2 ^ (e - 1) < v mod 2 ^ e \<or> (v mod 2 ^ e = 2 ^ (e - 1) \<and> odd (v div 2 ^ e))
                   then v div 2 ^ e + 1 else v div 2 ^ e)"
    by simp
  have "round_double v = (if 2 ^ (e - 1) < v mod 2 ^ e \<or> (v mod 2 ^ e = 2 ^ (e - 1) \<and> odd (v div 2 ^ e))
                   then v div 2 ^ e + 1 else v div 2 ^ e) * 2 ^ e"
    using False v by (simp add: round_double_def Let_def e_def)
  with m show ?thesis by simp
qed

lemma round_double_nonneg: "0 \<le> v \<Longrightarrow> 0 \<le> round_double v"
  using round_double_pos[of v] by (cases "v = 0") (simp_all add: round_double_small)

lemma round_double_53: "round_double 9007199254740992 = 9007199254740992"
  by code_simp

lemma plus_one_exact:
  assumes "- (2 ^ 53) < i" and "i < 2 ^ 53"
  shows "plus_one (Finite i) = Finite (i + 1)"
proof -
  have r: "round_double (i + 1) = i + 1"
  proof (cases "i + 1 = 2 ^ 53")
    case True
    then show ?thesis by (simp add: round_double_53)
  next
    case False
    with assms show ?thesis by (intro round_double_small) simp
  qed
  have "i + 1 < infinity_bound" using assms(2) by (simp add: infinity_bound_def)
  then show ?thesis by (simp add: plus_one_def to_number_def r)
qed

lemma plus_one_at_least_one: "0 \<le> q \<Longrightarrow> 1 \<le> plus_one q"
proof (cases q)
  case (Finite i)
  assume "0 \<le> q"
  with Finite have "0 < i + 1" by simp
  then have "0 < round_double (i + 1)" by (rule round_double_pos)
  with Finite show ?thesis by (simp add: plus_one_def to_number_def)
next
  case Infinity
  then show ?thesis by (simp add: plus_one_def)
qed

lemma to_number_nonneg: "0 \<le> v \<Longrightarrow> 0 \<le> to_number v"
  by (simp add: to_number_def round_double_nonneg)

text \<open>Rounding to a double leaves the value of a double as it is.\<close>

lemma bits_upper: "n < 2 ^ bits n"
proof (induction n rule: bits.induct)
  case (1 n)
  show ?case
  proof (cases "n \<le> 0")
    case True
    then show ?thesis by (subst bits.simps) simp
  next
    case False
    then have b: "bits n = Suc (bits (n div 2))" by (subst bits.simps) simp
    from 1[OF False] have "n div 2 + 1 \<le> 2 ^ bits (n div 2)" by simp
    moreover have "n < 2 * (n div 2 + 1)" by simp
    ultimately have "n < 2 * 2 ^ bits (n div 2)" by linarith
    then show ?thesis unfolding b by simp
  qed
qed

lemma bits_unique:
  assumes "2 ^ k \<le> n" and "n < 2 ^ Suc k"
  shows "bits n = Suc k"
proof -
  have "(0::int) < 2 ^ k" by simp
  with assms(1) have pos: "0 < n" by linarith
  have "(2::int) ^ (bits n - 1) < 2 ^ Suc k" using bits_lower[OF pos] assms(2) by linarith
  then have "bits n - 1 < Suc k" by (simp only: power_strict_increasing_iff one_less_numeral_iff semiring_norm)
  moreover have "(2::int) ^ k < 2 ^ bits n" using bits_upper[of n] assms(1) by linarith
  then have "k < bits n" by (simp only: power_strict_increasing_iff one_less_numeral_iff semiring_norm)
  ultimately show ?thesis by simp
qed

lemma round_double_exact:
  assumes "2 ^ 52 \<le> m" and "m < 2 ^ 53" and "1 \<le> e"
  shows "round_double (m * 2 ^ e) = m * 2 ^ e"
proof -
  define w where "w = m * 2 ^ e"
  have p: "(0::int) < 2 ^ e" by simp
  have "(2::int) ^ 52 * 2 ^ e \<le> w" unfolding w_def using assms(1) by (intro mult_right_mono) simp_all
  then have lo: "(2::int) ^ (52 + e) \<le> w" by (simp add: power_add)
  have "w < 2 ^ 53 * 2 ^ e" unfolding w_def using assms(2) by (intro mult_strict_right_mono) simp_all
  then have hi: "w < 2 ^ Suc (52 + e)" by (simp add: power_add)
  have b: "bits w = Suc (52 + e)" using lo hi by (rule bits_unique)
  have "(2::int) ^ 53 \<le> 2 ^ (52 + e)" using assms(3) by (intro power_increasing) simp_all
  with lo have big: "\<not> w < 2 ^ 53" and pos: "0 < w" by simp_all
  have aw: "\<bar>w\<bar> = w" using pos by simp
  have e: "bits w - 53 = e" using b by simp
  have d: "w div 2 ^ e = m" and r: "w mod 2 ^ e = 0" unfolding w_def by simp_all
  have h: "(0::int) < 2 ^ (e - 1)" by simp
  have "round_double w
          = sgn w * ((if 2 ^ (e - 1) < w mod 2 ^ e \<or> (w mod 2 ^ e = 2 ^ (e - 1) \<and> odd (w div 2 ^ e))
                      then w div 2 ^ e + 1 else w div 2 ^ e) * 2 ^ e)"
    unfolding round_double_def Let_def aw e using big by (simp only: if_False)
  also have "\<dots> = m * 2 ^ e" unfolding d r using pos h by simp
  finally show ?thesis by (simp add: w_def)
qed

lemma round_double_exact_top:
  assumes "1 \<le> e"
  shows "round_double (2 ^ 53 * 2 ^ e) = 2 ^ 53 * 2 ^ e"
proof -
  have "round_double (2 ^ 52 * 2 ^ Suc e) = 2 ^ 52 * 2 ^ Suc e"
    by (rule round_double_exact) simp_all
  moreover have "(2::int) ^ 52 * 2 ^ Suc e = 2 ^ 53 * 2 ^ e" by simp
  ultimately show ?thesis by simp
qed

lemma round_double_shape:
  assumes "2 ^ 53 \<le> v"
  obtains m e where "2 ^ 52 \<le> m" and "m \<le> 2 ^ 53" and "1 \<le> e"
    and "round_double v = m * 2 ^ e"
proof -
  define e where "e = bits v - 53"
  define m where "m = v div 2 ^ e"
  define m' where "m' = (if 2 ^ (e - 1) < v mod 2 ^ e \<or> (v mod 2 ^ e = 2 ^ (e - 1) \<and> odd m)
                          then m + 1 else m)"
  have pos: "0 < v" using assms by simp
  have "(2::int) ^ 53 < 2 ^ bits v" using bits_upper[of v] assms by linarith
  then have "53 < bits v"
    by (simp only: power_strict_increasing_iff one_less_numeral_iff semiring_norm)
  then have e1: "1 \<le> e" and bv: "bits v = e + 53" by (simp_all add: e_def)
  have "bits v - 1 = e + 52" using bv by simp
  with bits_lower[OF pos] have "(2::int) ^ (e + 52) \<le> v" by (simp only:)
  then have "2 ^ 52 * 2 ^ e \<le> v" by (simp add: power_add mult.commute)
  then have "(2 ^ 52 * 2 ^ e) div 2 ^ e \<le> v div 2 ^ e" by (intro zdiv_mono1) simp_all
  then have mlo: "2 ^ 52 \<le> m" by (simp add: m_def)
  have "m * 2 ^ e \<le> v"
  proof -
    have "m * 2 ^ e + v mod 2 ^ e = v" by (simp only: m_def div_mult_mod_eq)
    moreover have "0 \<le> v mod 2 ^ e" by simp
    ultimately show ?thesis by linarith
  qed
  moreover have "v < 2 ^ 53 * 2 ^ e" using bits_upper[of v] bv by (simp add: power_add mult.commute)
  ultimately have "m * 2 ^ e < 2 ^ 53 * 2 ^ e" by linarith
  then have mhi: "m < 2 ^ 53" by simp
  have "2 ^ 52 \<le> m'" and "m' \<le> 2 ^ 53" using mlo mhi by (simp_all add: m'_def)
  moreover have "round_double v = m' * 2 ^ e"
    using assms pos by (simp add: round_double_def Let_def e_def m_def m'_def)
  ultimately show thesis using e1 that by blast
qed

lemma round_double_neg: "round_double (- v) = - round_double v"
  by (simp add: round_double_def Let_def sgn_if)

lemma round_double_idem: "round_double (round_double v) = round_double v"
proof -
  have nonneg: "round_double (round_double a) = round_double a" if "0 \<le> a" for a
  proof (cases "a < 2 ^ 53")
    case True
    with that have "round_double a = a" by (intro round_double_small) simp
    then show ?thesis by simp
  next
    case False
    then have "2 ^ 53 \<le> a" by simp
    then obtain m e where m: "2 ^ 52 \<le> m" "m \<le> 2 ^ 53" "1 \<le> e" "round_double a = m * 2 ^ e"
      by (rule round_double_shape)
    show ?thesis
    proof (cases "m = 2 ^ 53")
      case True
      with m(3,4) show ?thesis using round_double_exact_top[of e] by simp
    next
      case False
      with m(2) have "m < 2 ^ 53" by simp
      with m show ?thesis using round_double_exact[of m e] by simp
    qed
  qed
  show ?thesis
  proof (cases "0 \<le> v")
    case True
    then show ?thesis by (rule nonneg)
  next
    case False
    then have "0 \<le> - v" by simp
    from nonneg[OF this] show ?thesis by (simp add: round_double_neg)
  qed
qed

lemma is_number_to_number: "0 \<le> v \<Longrightarrow> is_number (to_number v)"
  using round_double_nonneg[of v]
  by (simp add: to_number_def is_number_def round_double_idem)

lemma plus_one_number: "0 \<le> q \<Longrightarrow> is_number (plus_one q)"
proof (cases q)
  case (Finite i)
  assume "0 \<le> q"
  with Finite have "0 \<le> i + 1" by simp
  then have "is_number (to_number (i + 1))" by (rule is_number_to_number)
  with Finite show ?thesis by (simp add: plus_one_def)
next
  case Infinity
  then show ?thesis by (simp add: plus_one_def is_number_def)
qed

lemma is_number_one: "is_number 1"
  by (simp add: is_number_def one_number_def round_double_small infinity_bound_def)

lemma max_one_number: "is_number q \<Longrightarrow> is_number (max 1 q)"
  by (simp add: max_def is_number_one)

subsection \<open>Decimal numerals\<close>

lemma of_char_digit: "k < 10 \<Longrightarrow> of_char (char_of (48 + k :: nat)) = (48 + k :: nat)"
  by simp

lemma char_of_digit: "0 \<le> k \<Longrightarrow> char_of (48 + k :: int) = char_of (48 + nat k)"
proof -
  assume "0 \<le> k"
  then have "48 + k = int (48 + nat k)" by simp
  then show ?thesis by (simp only: char_of_nat)
qed

lemma digit_char_of: "0 \<le> k \<Longrightarrow> k < 10 \<Longrightarrow> digit (char_of (48 + k :: int))"
  by (simp add: char_of_digit digit_def of_char_digit del: of_char_of)

lemma digit_val_char_of: "0 \<le> k \<Longrightarrow> k < 10 \<Longrightarrow> digit_val (char_of (48 + k :: int)) = k"
proof -
  assume k: "0 \<le> k" "k < 10"
  then have "(of_char (char_of (48 + nat k)) :: nat) = 48 + nat k"
    by (intro of_char_digit) simp
  moreover have "(of_char (char_of (48 + nat k)) :: int) = int (of_char (char_of (48 + nat k)))"
    by (simp only: of_nat_of_char)
  ultimately have "(of_char (char_of (48 + nat k)) :: int) = int (48 + nat k)"
    by (simp only:)
  with k show ?thesis by (simp add: digit_val_def char_of_digit)
qed

lemma decimal_digits:
  "0 \<le> n \<Longrightarrow> decimal n \<noteq> [] \<and> (\<forall>c \<in> set (decimal n). digit c)"
proof (induction n rule: decimal.induct)
  case (1 n)
  show ?case
  proof (cases "n < 10")
    case True
    with 1(2) show ?thesis by (subst (1 2) decimal.simps) (simp add: digit_char_of)
  next
    case False
    then have "0 \<le> n div 10" by simp
    with 1 False show ?thesis by (subst (1 2) decimal.simps) (simp add: digit_char_of)
  qed
qed

lemma numeral_value_snoc: "numeral_value (ds @ [c]) = 10 * numeral_value ds + digit_val c"
  by (simp add: numeral_value_def)

lemma numeral_value_decimal: "0 \<le> n \<Longrightarrow> numeral_value (decimal n) = n"
proof (induction n rule: decimal.induct)
  case (1 n)
  show ?case
  proof (cases "n < 10")
    case True
    with 1(2) show ?thesis
      by (subst decimal.simps) (simp add: numeral_value_def digit_val_char_of)
  next
    case False
    then have "0 \<le> n div 10" by simp
    with 1 False have "numeral_value (decimal (n div 10)) = n div 10" by simp
    then show ?thesis using False
      by (subst decimal.simps) (simp add: numeral_value_snoc digit_val_char_of)
  qed
qed

lemma parseInt_decimal: "0 \<le> n \<Longrightarrow> parseInt (decimal n) = to_number n"
  by (simp add: parseInt_def numeral_value_decimal)

lemma length_decimal: "0 < k \<Longrightarrow> n < 10 ^ k \<Longrightarrow> length (decimal n) \<le> k"
proof (induction n arbitrary: k rule: decimal.induct)
  case (1 n)
  show ?case
  proof (cases "n < 10")
    case True
    with 1(2) show ?thesis by (subst decimal.simps) simp
  next
    case False
    obtain j where k: "k = Suc j" using 1(2) by (cases k) auto
    have j: "0 < j"
    proof (rule ccontr)
      assume "\<not> 0 < j"
      with 1(3) k have "n < 10" by simp
      with False show False by simp
    qed
    have "n < 10 * 10 ^ j" using 1(3) k by simp
    then have "n div 10 < 10 ^ j" by simp
    from 1(1)[OF False j this] show ?thesis using False k
      by (subst decimal.simps) simp
  qed
qed

subsection \<open>The digits of a Number\<close>

lemma shortest_round: "round_double x = x \<Longrightarrow> round_double (shortest x z) = x"
  by (induction z) (auto simp: Let_def)

lemma shortest_nonneg: "0 \<le> x \<Longrightarrow> 0 \<le> shortest x z"
  by (induction z) (auto simp: Let_def pos_imp_zdiv_nonneg_iff)

lemma round_double_ten_21: "round_double 1000000000000000000000 = 1000000000000000000000"
  by code_simp

lemma shortest_below:
  assumes "round_double x = x" and "x < 10 ^ 21" and "z \<le> 20"
  shows "shortest x z < 10 ^ 21"
  using assms(3)
proof (induction z)
  case 0
  with assms(2) show ?case by simp
next
  case (Suc z)
  define u :: int where "u = 10 ^ Suc z"
  define c :: int where "c = 10 ^ (21 - Suc z)"
  have up: "0 < u" by (simp add: u_def)
  have "(10::int) ^ 21 = 10 ^ (Suc z + (21 - Suc z))" using Suc.prems by simp
  then have uc: "(10::int) ^ 21 = u * c" unfolding u_def c_def by (simp only: power_add)
  have "x div u * u + x mod u = x" by simp
  moreover have "0 \<le> x mod u" using up by simp
  ultimately have lo: "x div u * u \<le> x" by linarith
  have "x div u < c"
  proof (rule ccontr)
    assume "\<not> x div u < c"
    then have "c * u \<le> x div u * u" using up by (intro mult_right_mono) simp_all
    with lo have "u * c \<le> x" by (simp add: mult.commute)
    with assms(2) uc show False by simp
  qed
  then have "x div u + 1 \<le> c" by simp
  then have "(x div u + 1) * u \<le> c * u" using up by (intro mult_right_mono) simp_all
  then have hi: "x div u * u + u \<le> 10 ^ 21" using uc by (simp add: algebra_simps)
  have hi': "x div u * u + u < 10 ^ 21" if "round_double (x div u * u + u) = x"
  proof (rule ccontr)
    assume "\<not> ?thesis"
    with hi have "x div u * u + u = 10 ^ 21" by simp
    with that have "round_double (10 ^ 21) = x" by simp
    then have "x = 10 ^ 21" by (simp add: round_double_ten_21)
    with assms(2) show False by simp
  qed
  have ih: "shortest x z < 10 ^ 21" using Suc by simp
  have lo': "x div u * u < 10 ^ 21" using lo assms(2) by simp
  show ?case
    using ih lo' hi' unfolding shortest.simps Let_def u_def[symmetric]
    by (auto split: if_splits)
qed

lemma digit_not_delimiter:
  "digit c \<Longrightarrow> c \<noteq> CHR ''('' \<and> c \<noteq> CHR '')'' \<and> c \<noteq> CHR ''['' \<and> c \<noteq> CHR '']''
     \<and> c \<noteq> CHR ''/'' \<and> c \<noteq> CHR '' '' \<and> \<not> js_space c \<and> \<not> line_terminator c"
  by (auto simp: digit_def js_space_def line_terminator_def)

lemma set_significant:
  "set (rev (dropWhile (\<lambda>c. c = CHR ''0'') (rev ds))) \<subseteq> set ds"
  using set_dropWhileD[of _ "\<lambda>c. c = CHR ''0''" "rev ds"] by auto

lemma magnitude_to_string_cases:
  assumes "0 \<le> x"
  obtains w where "0 \<le> w" and "round_double x = x \<longrightarrow> round_double w = x"
      and "round_double x = x \<and> x < 10 ^ 21 \<longrightarrow> w < 10 ^ 21"
      and "length (decimal w) \<le> 21" and "magnitude_to_string x = decimal w"
  | m ex where "\<forall>c \<in> set m. digit c \<or> c = CHR ''.''" and "\<forall>c \<in> set ex. digit c"
      and "magnitude_to_string x = m @ ''e+'' @ ex" and "\<not> (round_double x = x \<and> x < 10 ^ 21)"
proof -
  define w where "w = shortest x (length (decimal x) - 1)"
  define sig where "sig = rev (dropWhile (\<lambda>c. c = CHR ''0'') (rev (decimal w)))"
  have w0: "0 \<le> w" unfolding w_def using assms by (rule shortest_nonneg)
  have wr: "round_double x = x \<longrightarrow> round_double w = x"
    unfolding w_def using shortest_round by blast
  have wb: "w < 10 ^ 21" if "round_double x = x" and "x < 10 ^ 21"
  proof -
    have "length (decimal x) \<le> 21" using that(2) by (intro length_decimal) simp_all
    then have "length (decimal x) - 1 \<le> 20" by simp
    with that show ?thesis unfolding w_def by (intro shortest_below)
  qed
  have dg: "\<forall>c \<in> set (decimal w). digit c" using decimal_digits[OF w0] by simp
  show thesis
  proof (cases "length (decimal w) \<le> 21")
    case True
    then have "magnitude_to_string x = decimal w"
      by (simp add: magnitude_to_string_def Let_def w_def)
    with w0 wr wb True show thesis by (intro that(1)[of w]) auto
  next
    case False
    define m where "m = (case sig of [] \<Rightarrow> [] | d # r \<Rightarrow> d # (if r = [] then [] else CHR ''.'' # r))"
    have "set sig \<subseteq> set (decimal w)" unfolding sig_def by (rule set_significant)
    with dg have sd: "\<forall>c \<in> set sig. digit c" by blast
    have md: "\<forall>c \<in> set m. digit c \<or> c = CHR ''.''"
      using sd unfolding m_def by (cases sig) auto
    have ed: "\<forall>c \<in> set (decimal (int (length (decimal w) - 1))). digit c"
      using decimal_digits[of "int (length (decimal w) - 1)"] by simp
    have eq: "magnitude_to_string x = m @ ''e+'' @ decimal (int (length (decimal w) - 1))"
      using False by (simp add: magnitude_to_string_def Let_def w_def m_def sig_def)
    have "\<not> (round_double x = x \<and> x < 10 ^ 21)"
    proof
      assume "round_double x = x \<and> x < 10 ^ 21"
      then have "w < 10 ^ 21" using wb by simp
      then have "length (decimal w) \<le> 21" by (intro length_decimal) simp_all
      with False show False by simp
    qed
    with md ed eq show thesis by (intro that(2)[of m]) auto
  qed
qed

lemma rendered_all:
  assumes "1 < qty"
  shows "number_to_string qty \<noteq> [] \<and>
      (\<forall>c \<in> set (number_to_string qty).
           c \<noteq> CHR ''('' \<and> c \<noteq> CHR '')'' \<and> c \<noteq> CHR ''['' \<and> c \<noteq> CHR '']'' \<and> c \<noteq> CHR ''/''
           \<and> \<not> js_space c \<and> \<not> line_terminator c) \<and>
      (is_number qty \<longrightarrow> (\<forall>c \<in> set (number_to_string qty). digit c)
           \<longrightarrow> parseInt (number_to_string qty) = qty) \<and>
      (is_number qty \<longrightarrow> qty < Finite (10 ^ 21)
           \<longrightarrow> (\<forall>c \<in> set (number_to_string qty). digit c))"
proof -
  have plain: "c \<noteq> CHR ''('' \<and> c \<noteq> CHR '')'' \<and> c \<noteq> CHR ''['' \<and> c \<noteq> CHR '']'' \<and> c \<noteq> CHR ''/''
           \<and> \<not> js_space c \<and> \<not> line_terminator c"
    if "digit c \<or> c = CHR ''.'' \<or> c = CHR ''e'' \<or> c = CHR ''+''" for c
    using that digit_not_delimiter[of c] by (auto simp: js_space_def line_terminator_def)
  have nd: "\<not> digit (CHR ''e'')" "\<not> digit (CHR ''I'')" by (simp_all add: digit_def)
  show ?thesis
  proof (cases qty)
    case Infinity
    then show ?thesis
      using nd by (auto simp: number_to_string_def js_space_def line_terminator_def)
  next
    case (Finite i)
    with assms have i: "0 \<le> i" "\<not> i < 0" by simp_all
    have s: "number_to_string qty = magnitude_to_string i"
      using Finite i by (simp add: number_to_string_def)
    from i(1) show ?thesis
    proof (cases i rule: magnitude_to_string_cases)
      case (1 w)
      have d: "decimal w \<noteq> []" "\<forall>c \<in> set (decimal w). digit c"
        using decimal_digits[OF 1(1)] by simp_all
      have p: "parseInt (decimal w) = Finite i" if "is_number qty"
      proof -
        from that Finite have "round_double i = i" and "\<bar>i\<bar> < infinity_bound"
          by (simp_all add: is_number_def)
        then have "round_double i = i" and "i < infinity_bound" by simp_all
        with 1(2) show ?thesis by (simp add: parseInt_decimal[OF 1(1)] to_number_def)
      qed
      show ?thesis unfolding s 1(5) using d p plain Finite by auto
    next
      case (2 m ex)
      have a: "\<forall>c \<in> set (m @ ''e+'' @ ex). digit c \<or> c = CHR ''.'' \<or> c = CHR ''e'' \<or> c = CHR ''+''"
        using 2(1,2) by auto
      have b: "\<not> (\<forall>c \<in> set (m @ ''e+'' @ ex). digit c)" using nd(1) by auto
      have c: "\<not> (is_number qty \<and> qty < Finite (10 ^ 21))"
        using 2(4) Finite by (auto simp: is_number_def)
      have ne: "m @ ''e+'' @ ex \<noteq> []" by simp
      show ?thesis unfolding s 2(3) using a b c plain ne by blast
    qed
  qed
qed

lemma rendered_quantity:
  assumes "1 < qty"
  shows "number_to_string qty \<noteq> []"
    and "\<forall>c \<in> set (number_to_string qty).
           c \<noteq> CHR ''('' \<and> c \<noteq> CHR '')'' \<and> c \<noteq> CHR ''['' \<and> c \<noteq> CHR '']'' \<and> c \<noteq> CHR ''/''
           \<and> \<not> js_space c \<and> \<not> line_terminator c"
    and "is_number qty \<Longrightarrow> \<forall>c \<in> set (number_to_string qty). digit c
           \<Longrightarrow> parseInt (number_to_string qty) = qty"
    and "is_number qty \<Longrightarrow> qty < Finite (10 ^ 21)
           \<Longrightarrow> \<forall>c \<in> set (number_to_string qty). digit c"
  using rendered_all[OF assms] by blast+

subsection \<open>Searching a string\<close>

lemma indexOf_bounds: "- 1 \<le> indexOf s p \<and> indexOf s p \<le> int (length s)"
  by (induction s) (auto simp: Let_def)

lemma indexOf_sublist: "indexOf s p \<noteq> - 1 \<longleftrightarrow> sublist p s"
proof (induction s)
  case Nil
  then show ?case by simp
next
  case (Cons c cs)
  have lb: "- 1 \<le> indexOf cs p" using indexOf_bounds by blast
  show ?case
  proof (cases "prefix p (c # cs)")
    case True
    then show ?thesis by (simp add: sublist_Cons_right)
  next
    case False
    then have "indexOf (c # cs) p \<noteq> - 1 \<longleftrightarrow> indexOf cs p \<noteq> - 1"
      using lb by (auto simp: Let_def)
    with Cons False show ?thesis by (simp add: sublist_Cons_right)
  qed
qed

lemma includes_str_sublist: "includes_str s p \<longleftrightarrow> sublist p s"
  by (simp add: includes_str_def indexOf_sublist)

subsection \<open>Trimming\<close>

lemma dropWhile_id: "xs = [] \<or> \<not> P (hd xs) \<Longrightarrow> dropWhile P xs = xs"
  by (cases xs) auto

lemma trim_id:
  assumes "s = [] \<or> (\<not> js_space (hd s) \<and> \<not> js_space (last s))"
  shows "trim s = s"
proof (cases "s = []")
  case True
  then show ?thesis by (simp add: trim_def)
next
  case False
  with assms have h: "\<not> js_space (hd s)" and l: "\<not> js_space (last s)" by simp_all
  have "dropWhile js_space s = s" using h by (simp add: dropWhile_id)
  moreover have "dropWhile js_space (rev s) = rev s"
    using False l by (simp add: dropWhile_id hd_rev)
  ultimately show ?thesis by (simp add: trim_def)
qed

lemma length_dropWhile_less: "xs \<noteq> [] \<Longrightarrow> P (hd xs) \<Longrightarrow> length (dropWhile P xs) < length xs"
  by (cases xs) (auto simp: le_imp_less_Suc length_dropWhile_le)

lemma trim_fixed_ends:
  assumes "trim s = s" and "s \<noteq> []"
  shows "\<not> js_space (hd s) \<and> \<not> js_space (last s)"
proof -
  have le: "length (dropWhile js_space (rev (dropWhile js_space s))) \<le> length (dropWhile js_space s)"
    using length_dropWhile_le[of js_space "rev (dropWhile js_space s)"] by simp
  have len: "length (trim s) = length (dropWhile js_space (rev (dropWhile js_space s)))"
    by (simp add: trim_def)
  have h: "\<not> js_space (hd s)"
  proof
    assume "js_space (hd s)"
    with assms(2) have "length (dropWhile js_space s) < length s"
      by (rule length_dropWhile_less)
    with le len assms(1) show False by simp
  qed
  then have d: "dropWhile js_space s = s" by (simp add: dropWhile_id)
  have "\<not> js_space (last s)"
  proof
    assume "js_space (last s)"
    then have "js_space (hd (rev s))" using assms(2) by (simp add: hd_rev)
    with assms(2) have "length (dropWhile js_space (rev s)) < length (rev s)"
      by (intro length_dropWhile_less) simp_all
    with len d assms(1) show False by simp
  qed
  with h show ?thesis by simp
qed

subsection \<open>The first occurrence of the notes separator\<close>

lemma indexOf_skip:
  assumes "\<forall>x. x \<noteq> [] \<and> suffix x a \<longrightarrow> \<not> prefix p (x @ b)"
  shows "indexOf (a @ b) p = (if indexOf b p < 0 then - 1 else int (length a) + indexOf b p)"
  using assms
proof (induction a)
  case Nil
  have "- 1 \<le> indexOf b p" using indexOf_bounds by blast
  then show ?case by auto
next
  case (Cons c a)
  have np: "\<not> prefix p ((c # a) @ b)" using Cons.prems[rule_format, of "c # a"] by simp
  have "\<forall>x. x \<noteq> [] \<and> suffix x a \<longrightarrow> \<not> prefix p (x @ b)"
    using Cons.prems by (simp add: suffix_Cons)
  from Cons.IH[OF this] np show ?case by (simp add: Let_def)
qed



lemma separator_overlap:
  assumes "\<not> sublist '' // '' a" and "x \<noteq> []" and "suffix x a" and "prefix '' // '' (x @ b)"
  shows "(x = '' '' \<and> prefix ''// '' b) \<or> (x = '' /'' \<and> prefix ''/ '' b)
         \<or> (x = '' //'' \<and> prefix '' '' b)"
proof -
  have short: "length x < 4"
  proof (rule ccontr)
    assume "\<not> length x < 4"
    then have len: "length '' // '' \<le> length x" by simp
    have "prefix x (x @ b)" by simp
    with assms(4) have "prefix '' // '' x" using len by (rule prefix_length_prefix)
    then obtain r where "x = '' // '' @ r" unfolding prefix_def by blast
    moreover from assms(3) obtain y where "a = y @ x" unfolding suffix_def by blast
    ultimately have "a = y @ '' // '' @ r" by simp
    then have "sublist '' // '' a" unfolding sublist_def by blast
    with assms(1) show False by simp
  qed
  from assms(2) obtain c1 x1 where x: "x = c1 # x1" by (cases x) auto
  show ?thesis
  proof (cases x1)
    case Nil
    from assms(4) show ?thesis unfolding x Nil by auto
  next
    case (Cons c2 x2)
    show ?thesis
    proof (cases x2)
      case Nil
      from assms(4) show ?thesis unfolding x Cons Nil by auto
    next
      case c3: (Cons c3 x3)
      with short x Cons have "x3 = []" by simp
      with assms(4) show ?thesis unfolding x Cons c3 by auto
    qed
  qed
qed

lemma no_separator_before:
  assumes "\<not> sublist '' // '' a" and "b = [] \<or> hd b \<noteq> CHR ''/''"
    and "suffix '' //'' a \<longrightarrow> b = [] \<or> hd b \<noteq> CHR '' ''"
    and "x \<noteq> []" and "suffix x a"
  shows "\<not> prefix '' // '' (x @ b)"
proof
  assume "prefix '' // '' (x @ b)"
  from separator_overlap[OF assms(1,4,5) this]
  consider "prefix ''// '' b" | "prefix ''/ '' b" | "x = '' //''" "prefix '' '' b" by blast
  then show False
  proof cases
    case 1
    then obtain r where "b = ''// '' @ r" unfolding prefix_def by blast
    with assms(2) show False by simp
  next
    case 2
    then obtain r where "b = ''/ '' @ r" unfolding prefix_def by blast
    with assms(2) show False by simp
  next
    case 3
    from 3(2) obtain r where "b = '' '' @ r" unfolding prefix_def by blast
    with 3(1) assms(3,5) show False by simp
  qed
qed

lemma indexOf_past_clean_prefix:
  assumes "\<not> sublist '' // '' a" and "b = [] \<or> hd b \<noteq> CHR ''/''"
    and "suffix '' //'' a \<longrightarrow> b = [] \<or> hd b \<noteq> CHR '' ''"
  shows "indexOf (a @ b) '' // ''
           = (if indexOf b '' // '' < 0 then - 1 else int (length a) + indexOf b '' // '')"
proof (rule indexOf_skip, intro allI impI)
  fix x assume "x \<noteq> [] \<and> suffix x a"
  then show "\<not> prefix '' // '' (x @ b)"
    using no_separator_before[OF assms] by blast
qed

lemma indexOf_negative: "indexOf s p < 0 \<longleftrightarrow> \<not> sublist p s"
  using indexOf_sublist[of s p] indexOf_bounds[of s p] by auto

lemma sublist_has_chars: "sublist p s \<Longrightarrow> set p \<subseteq> set s"
  unfolding sublist_def by auto

lemma no_slash_no_separator:
  assumes "CHR ''/'' \<notin> set a"
  shows "\<not> sublist '' // '' a" and "\<not> suffix '' //'' a"
proof -
  have m: "CHR ''/'' \<in> set '' // ''" "CHR ''/'' \<in> set '' //''" by simp_all
  show "\<not> sublist '' // '' a" using assms sublist_has_chars[of "'' // ''" a] m(1) by blast
  show "\<not> suffix '' //'' a"
  proof
    assume "suffix '' //'' a"
    then obtain y where "a = y @ '' //''" unfolding suffix_def by blast
    with assms show False by simp
  qed
qed

subsection \<open>The bracketed groups\<close>

lemma lazy_group_found:
  assumes "a \<noteq> []" and "\<forall>c \<in> set a. \<not> line_terminator c" and "k b = Some g"
    and "\<forall>x y. a = x @ y \<and> x \<noteq> [] \<and> y \<noteq> [] \<longrightarrow> k (y @ b) = None"
  shows "lazy_group k acc (a @ b) = Some (acc @ a, g)"
  using assms
proof (induction a arbitrary: acc)
  case Nil
  then show ?case by simp
next
  case (Cons c a)
  show ?case
  proof (cases "a = []")
    case True
    with Cons.prems show ?thesis by simp
  next
    case False
    have "k (a @ b) = None" using Cons.prems(4)[rule_format, of "[c]" a] False by simp
    moreover have "\<forall>x y. a = x @ y \<and> x \<noteq> [] \<and> y \<noteq> [] \<longrightarrow> k (y @ b) = None"
    proof (intro allI impI)
      fix x y assume "a = x @ y \<and> x \<noteq> [] \<and> y \<noteq> []"
      then have "c # a = (c # x) @ y \<and> c # x \<noteq> [] \<and> y \<noteq> []" by simp
      with Cons.prems(4) show "k (y @ b) = None" by blast
    qed
    ultimately show ?thesis using Cons.IH[OF False _ Cons.prems(3), of "acc @ [c]"] Cons.prems(2)
      by simp
  qed
qed

lemma lazy_group_none:
  assumes "\<forall>y. suffix y s \<longrightarrow> k y = None"
  shows "lazy_group k acc s = None"
  using assms
proof (induction s arbitrary: acc)
  case Nil
  then show ?case by simp
next
  case (Cons c s)
  have "k s = None" using Cons.prems by (simp add: suffix_Cons)
  moreover have "\<forall>y. suffix y s \<longrightarrow> k y = None" using Cons.prems by (simp add: suffix_Cons)
  ultimately show ?case using Cons.IH by simp
qed

lemma bracket_rest_needs_opening:
  assumes "opn \<notin> set s"
  shows "bracket_rest opn cls ok s = None"
proof (cases "dropWhile js_space s")
  case Nil
  show ?thesis unfolding bracket_rest_def Nil by simp
next
  case (Cons c r)
  then have "c \<in> set (dropWhile js_space s)" by simp
  then have "c \<in> set s" by (rule set_dropWhileD)
  with assms have "c \<noteq> opn" by auto
  then show ?thesis unfolding bracket_rest_def Cons by simp
qed

lemma bracket_rest_after_text:
  assumes "y \<noteq> []" and "\<not> js_space (last y)" and "opn \<notin> set y"
  shows "bracket_rest opn cls ok (y @ b) = None"
proof -
  have "last y \<in> set y" using assms(1) by simp
  with assms(2) have d: "dropWhile js_space (y @ b) = dropWhile js_space y @ b"
    by (intro dropWhile_append1)
  have ne: "dropWhile js_space y \<noteq> []"
    using \<open>last y \<in> set y\<close> assms(2) by (auto simp: dropWhile_eq_Nil_conv)
  then obtain c r where c: "dropWhile js_space y = c # r" by (cases "dropWhile js_space y") auto
  then have "c \<in> set (dropWhile js_space y)" by simp
  then have "c \<in> set y" by (rule set_dropWhileD)
  with assms(3) have "c \<noteq> opn" by auto
  then show ?thesis unfolding bracket_rest_def d c by simp
qed

lemma bracket_rest_group:
  assumes "g \<noteq> []" and "\<forall>c \<in> set g. ok c" and "\<not> ok cls" and "\<not> js_space opn"
  shows "bracket_rest opn cls ok (CHR '' '' # opn # g @ [cls]) = Some g"
proof -
  have sp: "js_space (CHR '' '')" by (simp add: js_space_def)
  have t: "takeWhile ok (g @ [cls]) = g" using assms(2,3) by (simp add: takeWhile_append2)
  have d: "dropWhile ok (g @ [cls]) = [cls]" using assms(2,3) by (simp add: dropWhile_append2)
  show ?thesis using sp assms(1,4) by (simp add: bracket_rest_def t d)
qed

subsection \<open>Decoding an encoded summary\<close>

lemma suffix_last: "suffix y a \<Longrightarrow> y \<noteq> [] \<Longrightarrow> last y = last a"
  unfolding suffix_def by auto

lemma match_quantity_rendered:
  assumes "nm \<noteq> []" and "\<not> js_space (last nm)" and "CHR ''('' \<notin> set nm"
    and "\<forall>c \<in> set nm. \<not> line_terminator c" and "ds \<noteq> []" and "\<forall>c \<in> set ds. digit c"
  shows "match_quantity (nm @ '' ('' @ ds @ '')'') = Some (nm, ds)"
proof -
  let ?k = "bracket_rest (CHR ''('') (CHR '')'') digit"
  let ?b = "CHR '' '' # CHR ''('' # ds @ [CHR '')'']"
  have kb: "?k ?b = Some ds"
    using assms(5,6) by (intro bracket_rest_group) (simp_all add: digit_def js_space_def)
  have side: "\<forall>x y. nm = x @ y \<and> x \<noteq> [] \<and> y \<noteq> [] \<longrightarrow> ?k (y @ ?b) = None"
  proof (intro allI impI)
    fix x y assume xy: "nm = x @ y \<and> x \<noteq> [] \<and> y \<noteq> []"
    then have y: "y \<noteq> []" and ly: "last y = last nm" and sy: "set y \<subseteq> set nm" by auto
    have l: "\<not> js_space (last y)" using ly assms(2) by simp
    have o: "CHR ''('' \<notin> set y" using sy assms(3) by blast
    show "?k (y @ ?b) = None" by (rule bracket_rest_after_text[OF y l o])
  qed
  have "lazy_group ?k [] (nm @ ?b) = Some ([] @ nm, ds)"
    using assms(1,4) kb side by (rule lazy_group_found)
  then show ?thesis by (simp add: match_quantity_def)
qed

text \<open>A quantity that is not written as a decimal numeral is not read back.\<close>

lemma match_quantity_not_numeral:
  assumes "nm = [] \<or> \<not> js_space (last nm)" and "CHR ''('' \<notin> set nm"
    and "CHR ''('' \<notin> set r" and "\<exists>c \<in> set r. \<not> digit c"
  shows "match_quantity (nm @ '' ('' @ r @ '')'') = None"
  unfolding match_quantity_def
proof (rule lazy_group_none, intro allI impI)
  let ?k = "bracket_rest (CHR ''('') (CHR '')'') digit"
  let ?b = "CHR ''('' # r @ [CHR '')'']"
  fix y assume "suffix y (nm @ '' ('' @ r @ '')'')"
  then have "suffix y (nm @ (CHR '' '' # ?b))" by simp
  then consider (a) y' where "y' \<noteq> []" and "suffix y' nm" and "y = y' @ (CHR '' '' # ?b)"
    | (b) "y = CHR '' '' # ?b" | (c) "y = ?b" | (d) "suffix y (r @ [CHR '')''])"
    unfolding suffix_append[of y nm] suffix_Cons[of y] by fastforce
  then show "?k y = None"
  proof cases
    case a
    have "last y' = last nm" using a(1,2) by (simp add: suffix_last)
    with assms(1) a(1,2) have l: "\<not> js_space (last y')" by (auto simp: suffix_def)
    have "set y' \<subseteq> set nm" using a(2) by (rule set_mono_suffix)
    with assms(2) have o: "CHR ''('' \<notin> set y'" by blast
    show ?thesis unfolding a(3) by (rule bracket_rest_after_text[OF a(1) l o])
  next
    have "dropWhile digit r \<noteq> []" using assms(4) by (auto simp: dropWhile_eq_Nil_conv)
    moreover have "dropWhile digit (r @ [CHR '')'']) = dropWhile digit r @ [CHR '')'']"
      using assms(4) by (auto simp: dropWhile_append1)
    ultimately have nb: "dropWhile digit (r @ [CHR '')'']) \<noteq> [CHR '')'']" by simp
    {
      case b
      show ?thesis unfolding b using nb by (simp add: bracket_rest_def js_space_def)
    next
      case c
      show ?thesis unfolding c using nb by (simp add: bracket_rest_def js_space_def)
    }
  next
    case d
    then have "set y \<subseteq> set (r @ [CHR '')''])" by (rule set_mono_suffix)
    with assms(3) have "CHR ''('' \<notin> set y" by auto
    then show ?thesis by (rule bracket_rest_needs_opening)
  qed
qed

lemma match_quantity_absent:
  assumes "CHR ''('' \<notin> set s"
  shows "match_quantity s = None"
  unfolding match_quantity_def
proof (rule lazy_group_none, intro allI impI)
  fix y assume "suffix y s"
  then have "set y \<subseteq> set s" by (rule set_mono_suffix)
  with assms have "CHR ''('' \<notin> set y" by auto
  then show "bracket_rest (CHR ''('') (CHR '')'') digit y = None"
    by (rule bracket_rest_needs_opening)
qed

lemma match_category_rendered:
  assumes "a \<noteq> []" and "\<not> js_space (last a)" and "CHR ''['' \<notin> set a"
    and "\<forall>c \<in> set a. \<not> line_terminator c" and "ca \<noteq> []" and "CHR '']'' \<notin> set ca"
  shows "match_category (a @ '' ['' @ ca @ '']'') = Some (a, ca)"
proof -
  let ?k = "bracket_rest (CHR ''['') (CHR '']'') (\<lambda>c. c \<noteq> CHR '']'')"
  let ?b = "CHR '' '' # CHR ''['' # ca @ [CHR '']'']"
  have kb: "?k ?b = Some ca"
    using assms(5,6) by (intro bracket_rest_group) (auto simp: js_space_def)
  have side: "\<forall>x y. a = x @ y \<and> x \<noteq> [] \<and> y \<noteq> [] \<longrightarrow> ?k (y @ ?b) = None"
  proof (intro allI impI)
    fix x y assume xy: "a = x @ y \<and> x \<noteq> [] \<and> y \<noteq> []"
    then have y: "y \<noteq> []" and ly: "last y = last a" and sy: "set y \<subseteq> set a" by auto
    have l: "\<not> js_space (last y)" using ly assms(2) by simp
    have o: "CHR ''['' \<notin> set y" using sy assms(3) by blast
    show "?k (y @ ?b) = None" by (rule bracket_rest_after_text[OF y l o])
  qed
  have "lazy_group ?k [] (a @ ?b) = Some ([] @ a, ca)"
    using assms(1,4) kb side by (rule lazy_group_found)
  then show ?thesis by (simp add: match_category_def)
qed

lemma match_category_absent:
  assumes "CHR ''['' \<notin> set s"
  shows "match_category s = None"
  unfolding match_category_def
proof (rule lazy_group_none, intro allI impI)
  fix y assume "suffix y s"
  then have "set y \<subseteq> set s" by (rule set_mono_suffix)
  with assms have "CHR ''['' \<notin> set y" by auto
  then show "bracket_rest (CHR ''['') (CHR '']'') (\<lambda>c. c \<noteq> CHR '']'') y = None"
    by (rule bracket_rest_needs_opening)
qed

lemma no_separator_after_closed:
  assumes "\<not> sublist '' // '' a" and "a \<noteq> []" and "last a \<noteq> CHR '' ''" and "last a \<noteq> CHR ''/''"
    and "x \<noteq> []" and "suffix x a"
  shows "\<not> prefix '' // '' (x @ b)"
proof
  assume "prefix '' // '' (x @ b)"
  from separator_overlap[OF assms(1,5,6) this]
  have "last x = CHR '' '' \<or> last x = CHR ''/''" by auto
  moreover from assms(5,6) have "last x = last a" unfolding suffix_def by auto
  ultimately show False using assms(3,4) by simp
qed

lemma indexOf_past_closed:
  assumes "\<not> sublist '' // '' a" and "a \<noteq> []" and "last a \<noteq> CHR '' ''" and "last a \<noteq> CHR ''/''"
  shows "indexOf (a @ b) '' // ''
           = (if indexOf b '' // '' < 0 then - 1 else int (length a) + indexOf b '' // '')"
proof (rule indexOf_skip, intro allI impI)
  fix x assume "x \<noteq> [] \<and> suffix x a"
  then show "\<not> prefix '' // '' (x @ b)"
    using no_separator_after_closed[OF assms] by blast
qed

lemma rendered_quantity_clean:
  assumes "CHR ''/'' \<notin> set r"
  shows "\<not> sublist '' // '' ('' ('' @ r @ '')'')"
proof (rule no_slash_no_separator(1))
  show "CHR ''/'' \<notin> set ('' ('' @ r @ '')'')" using assms by auto
qed

lemma rendered_category_clean:
  assumes "\<not> sublist '' // '' ca"
  shows "\<not> sublist '' // '' ('' ['' @ ca @ '']'')"
proof -
  have 1: "indexOf '']'' '' // '' < 0" by simp
  have 2: "indexOf (ca @ '']'') '' // '' < 0"
    using indexOf_past_clean_prefix[OF assms, of "'']''"] 1 by simp
  have 3: "\<not> sublist '' // '' '' [''"
    by (rule no_slash_no_separator(1)) simp
  have "indexOf ('' ['' @ (ca @ '']'')) '' // '' < 0"
    using indexOf_past_closed[OF 3, of "ca @ '']''"] 2 by simp
  then show ?thesis unfolding indexOf_negative by simp
qed


lemma lazy_group_blocked:
  assumes "\<exists>c \<in> set a. line_terminator c"
    and "\<forall>y. y \<noteq> [] \<and> suffix y a \<longrightarrow> k (y @ b) = None"
  shows "lazy_group k acc (a @ b) = None"
  using assms
proof (induction a arbitrary: acc)
  case Nil
  then show ?case by simp
next
  case (Cons d a)
  show ?case
  proof (cases "line_terminator d")
    case True
    then show ?thesis by simp
  next
    case False
    with Cons.prems(1) have ex: "\<exists>c \<in> set a. line_terminator c" by simp
    then have "a \<noteq> []" by auto
    then have "k (a @ b) = None" using Cons.prems(2) by (simp add: suffix_Cons)
    moreover have "\<forall>y. y \<noteq> [] \<and> suffix y a \<longrightarrow> k (y @ b) = None"
      using Cons.prems(2) by (simp add: suffix_Cons)
    ultimately show ?thesis using False Cons.IH[OF ex] by simp
  qed
qed

lemma match_blocked:
  assumes "\<exists>c \<in> set a. line_terminator c" and "\<not> js_space (last a)" and "opn \<notin> set a"
  shows "lazy_group (bracket_rest opn cls ok) [] (a @ b) = None"
proof (rule lazy_group_blocked[OF assms(1)], intro allI impI)
  fix y assume y: "y \<noteq> [] \<and> suffix y a"
  then have "last y = last a" by (simp add: suffix_last)
  moreover from y have "set y \<subseteq> set a" by (simp add: set_mono_suffix)
  ultimately show "bracket_rest opn cls ok (y @ b) = None"
    using y assms(2,3) by (intro bracket_rest_after_text) auto
qed

lemma formatSummary_notes:
  "formatSummary nm qty no ca
     = formatSummary nm qty [] ca @ (if no \<noteq> [] then '' // '' @ no else [])"
  by (simp add: formatSummary_def Let_def)

lemma formatSummary_head:
  "formatSummary nm qty [] ca
     = (nm @ (if 1 < qty then '' ('' @ number_to_string qty @ '')'' else []))
       @ (if ca \<noteq> [] then '' ['' @ ca @ '']'' else [])"
  by (simp add: formatSummary_def Let_def)

text \<open>The encoded summary without its notes.\<close>

lemma head_shape:
  assumes n1: "nm \<noteq> []" and n2: "trim nm = nm" and n4: "\<not> sublist '' // '' nm"
    and n7: "suffix '' //'' nm \<longrightarrow> qty \<le> 1 \<and> ca = []"
    and c3: "\<not> sublist '' // '' ca"
  shows "formatSummary nm qty [] ca \<noteq> []"
    and "\<not> js_space (hd (formatSummary nm qty [] ca))"
    and "\<not> js_space (last (formatSummary nm qty [] ca))"
    and "trim (formatSummary nm qty [] ca) = formatSummary nm qty [] ca"
    and "\<not> sublist '' // '' (formatSummary nm qty [] ca)"
    and "suffix '' //'' (formatSummary nm qty [] ca) \<longrightarrow> suffix '' //'' nm"
proof -
  define Q where "Q = (if 1 < qty then '' ('' @ number_to_string qty @ '')'' else [])"
  define C where "C = (if ca \<noteq> [] then '' ['' @ ca @ '']'' else [])"
  define P where "P = formatSummary nm qty [] ca"
  have P: "P = nm @ Q @ C" by (simp add: P_def formatSummary_head Q_def C_def)
  from trim_fixed_ends[OF n2 n1] have nh: "\<not> js_space (hd nm)" and nl: "\<not> js_space (last nm)"
    by simp_all
  have sp: "\<not> js_space (CHR '')'')" "\<not> js_space (CHR '']'')"
    by (simp_all add: js_space_def)
  show P1: "formatSummary nm qty [] ca \<noteq> []" using n1 by (simp add: formatSummary_head)
  have P5: "\<not> js_space (hd P)" using nh n1 by (simp add: P)
  have P2: "\<not> js_space (last P)" using nl sp by (simp add: P Q_def C_def)
  from P5 show "\<not> js_space (hd (formatSummary nm qty [] ca))" by (simp add: P_def)
  from P2 show "\<not> js_space (last (formatSummary nm qty [] ca))" by (simp add: P_def)
  from P1 P2 P5 show "trim (formatSummary nm qty [] ca) = formatSummary nm qty [] ca"
    unfolding P_def by (intro trim_id) simp
  have Cc: "\<not> sublist '' // '' C" using rendered_category_clean[OF c3] by (simp add: C_def)
  have QC: "\<not> sublist '' // '' (Q @ C)"
  proof (cases "1 < qty")
    case True
    then have Q: "Q = '' ('' @ number_to_string qty @ '')''" by (simp add: Q_def)
    have "CHR ''/'' \<notin> set (number_to_string qty)" using rendered_quantity(2)[OF True] by blast
    then have "\<not> sublist '' // '' ('' ('' @ number_to_string qty @ '')'')"
      by (rule rendered_quantity_clean)
    then have "indexOf (('' ('' @ number_to_string qty @ '')'') @ C) '' // '' < 0"
      using indexOf_past_closed[of "'' ('' @ number_to_string qty @ '')''" C] Cc
      by (simp add: indexOf_negative)
    then show ?thesis unfolding indexOf_negative Q by simp
  next
    case False
    with Cc show ?thesis by (simp add: Q_def)
  qed
  have "Q @ C = [] \<or> hd (Q @ C) \<noteq> CHR ''/''" by (simp add: Q_def C_def)
  moreover have "suffix '' //'' nm \<longrightarrow> Q @ C = [] \<or> hd (Q @ C) \<noteq> CHR '' ''"
    using n7 by (auto simp: Q_def C_def)
  ultimately have "indexOf (nm @ (Q @ C)) '' // '' < 0"
    using indexOf_past_clean_prefix[OF n4, of "Q @ C"] QC by (simp add: indexOf_negative)
  then show "\<not> sublist '' // '' (formatSummary nm qty [] ca)"
    unfolding indexOf_negative P_def[symmetric] P by simp
  show "suffix '' //'' (formatSummary nm qty [] ca) \<longrightarrow> suffix '' //'' nm"
  proof (cases "1 < qty \<or> ca \<noteq> []")
    case True
    then have "last P \<noteq> CHR ''/''" by (auto simp: P Q_def C_def)
    moreover have "suffix '' //'' P \<longrightarrow> last P = CHR ''/''" unfolding suffix_def by auto
    ultimately show ?thesis by (auto simp: P_def)
  next
    case False
    then have "P = nm" by (simp add: P Q_def C_def)
    then show ?thesis by (simp add: P_def)
  qed
qed

text \<open>The first step of the decoder splits the notes off and leaves the rest to the
  later steps.\<close>

lemma parse_split:
  assumes p1: "P \<noteq> []" and p2: "trim P = P" and p3: "\<not> sublist '' // '' P"
    and p4: "\<not> suffix '' //'' P" and o1: "trim no = no" and o2: "no \<noteq> []"
  shows "parseSummary (P @ '' // '' @ no)
           = (case parseSummary P of (n, q, x, c) \<Rightarrow> (n, q, no, c))"
proof -
  define s where "s = P @ '' // '' @ no"
  from trim_fixed_ends[OF p2 p1] have ph: "\<not> js_space (hd P)" by simp
  from trim_fixed_ends[OF o1 o2] have ol: "\<not> js_space (last no)" by simp
  have s0: "trim s = s" using p1 ph o2 ol unfolding s_def by (intro trim_id) simp
  have z: "indexOf ('' // '' @ no) '' // '' = 0" by simp
  have "'' // '' @ no = [] \<or> hd ('' // '' @ no) \<noteq> CHR ''/''" by simp
  moreover have "suffix '' //'' P \<longrightarrow> '' // '' @ no = [] \<or> hd ('' // '' @ no) \<noteq> CHR '' ''"
    using p4 by simp
  ultimately have i: "indexOf s '' // '' = int (length P)"
    using indexOf_past_clean_prefix[OF p3, of "'' // '' @ no"] z by (simp add: s_def)
  have "nat (int (length P) + 4) = length P + 4" by simp
  then have "substring_from s (int (length P) + 4) = no"
    unfolding substring_from_def s_def by simp
  with o1 have nts: "(if indexOf s '' // '' \<ge> 0
              then trim (substring_from s (indexOf s '' // '' + 4)) else []) = no"
    unfolding i by simp
  have "substring s 0 (int (length P)) = P" unfolding substring_def s_def by simp
  with p2 have name1: "(if indexOf s '' // '' \<ge> 0
                then trim (substring s 0 (indexOf s '' // '')) else s) = P"
    unfolding i by simp
  have j: "indexOf P '' // '' = - 1"
    using p3 indexOf_negative[of P "'' // ''"] indexOf_bounds[of P "'' // ''"] by simp
  have nts': "(if indexOf P '' // '' \<ge> 0
              then trim (substring_from P (indexOf P '' // '' + 4)) else []) = []"
    unfolding j by simp
  have name1': "(if indexOf P '' // '' \<ge> 0
                then trim (substring P 0 (indexOf P '' // '')) else P) = P"
    unfolding j by simp
  show ?thesis
    unfolding s_def[symmetric] parseSummary_def Let_def s0 p2 nts name1 nts' name1'
    by simp
qed

lemma parse_head_plain:
  assumes n1: "nm \<noteq> []" and n2: "trim nm = nm" and n3: "\<forall>c \<in> set nm. \<not> line_terminator c"
    and n4: "\<not> sublist '' // '' nm" and n5: "CHR ''('' \<notin> set nm" and n6: "CHR ''['' \<notin> set nm"
    and n7: "suffix '' //'' nm \<longrightarrow> qty \<le> 1 \<and> ca = []"
    and c1: "trim ca = ca" and c2: "CHR '']'' \<notin> set ca" and c3: "\<not> sublist '' // '' ca"
  shows "parseSummary (formatSummary nm qty [] ca)
           = (if 1 < qty \<and> \<not> (\<forall>c \<in> set (number_to_string qty). digit c)
              then (nm @ '' ('' @ number_to_string qty @ '')'', 1, [], ca)
              else (nm, if 1 < qty then parseInt (number_to_string qty) else 1, [], ca))"
proof -
  define D where "D = number_to_string qty"
  define Q where "Q = (if 1 < qty then '' ('' @ D @ '')'' else [])"
  define C where "C = (if ca \<noteq> [] then '' ['' @ ca @ '']'' else [])"
  define A where "A = nm @ Q"
  define P where "P = A @ C"
  have fmt: "formatSummary nm qty [] ca = P"
    by (simp add: formatSummary_head P_def A_def Q_def C_def D_def)
  note shape = head_shape[OF n1 n2 n4 n7 c3, unfolded fmt]
  have dne: "D \<noteq> []" if "1 < qty" using rendered_quantity(1)[OF that] by (simp add: D_def)
  have dnd: "c \<noteq> CHR ''('' \<and> c \<noteq> CHR ''['' \<and> c \<noteq> CHR '']'' \<and> \<not> line_terminator c"
    if "1 < qty" and "c \<in> set D" for c
    using rendered_quantity(2)[OF that(1)] that(2) by (simp add: D_def)
  from trim_fixed_ends[OF n2 n1] have nh: "\<not> js_space (hd nm)" and nl: "\<not> js_space (last nm)"
    by simp_all
  have sp: "\<not> js_space (CHR '')'')" by (simp add: js_space_def)
  have A1: "A \<noteq> []" using n1 by (simp add: A_def)
  have A2: "\<not> js_space (last A)" using nl sp by (simp add: A_def Q_def)
  have A3: "CHR ''['' \<notin> set A" using n6 dnd by (auto simp: A_def Q_def)
  have A4: "\<forall>c \<in> set A. \<not> line_terminator c"
    using n3 dnd by (auto simp: A_def Q_def line_terminator_def)
  have A5: "\<not> js_space (hd A)" using nh n1 by (simp add: A_def)
  have A6: "trim A = A" using A1 A2 A5 by (intro trim_id) simp
  have j: "indexOf P '' // '' = - 1"
    using shape(5) indexOf_negative[of P "'' // ''"] indexOf_bounds[of P "'' // ''"] by simp
  have nts: "(if indexOf P '' // '' \<ge> 0
              then trim (substring_from P (indexOf P '' // '' + 4)) else []) = []"
    unfolding j by simp
  have name1: "(if indexOf P '' // '' \<ge> 0
                then trim (substring P 0 (indexOf P '' // '')) else P) = P"
    unfolding j by simp
  have cat: "match_category P = (if ca = [] then None else Some (A, ca))"
  proof (cases "ca = []")
    case True
    with match_category_absent[OF A3] show ?thesis by (simp add: P_def C_def)
  next
    case False
    with match_category_rendered[OF A1 A2 A3 A4 False c2] show ?thesis by (simp add: P_def C_def)
  qed
  have name2: "(case match_category P of Some (g1, g2) \<Rightarrow> trim g1 | None \<Rightarrow> P) = A"
    using A6 unfolding cat by (simp add: P_def C_def)
  have category: "(case match_category P of Some (g1, g2) \<Rightarrow> trim g2 | None \<Rightarrow> []) = ca"
    using c1 unfolding cat by simp
  have start: "parseSummary (formatSummary nm qty [] ca)
           = (case match_quantity A of Some (g1, g2) \<Rightarrow> trim g1 | None \<Rightarrow> A,
              case match_quantity A of Some (g1, g2) \<Rightarrow> parseInt g2 | None \<Rightarrow> 1, [], ca)"
    unfolding fmt parseSummary_def Let_def shape(4) nts name1 name2 category ..
  show ?thesis
  proof (cases "1 < qty")
    case False
    then have "A = nm" by (simp add: A_def Q_def)
    with match_quantity_absent[OF n5] False n2 show ?thesis unfolding start by simp
  next
    case True
    then have A: "A = nm @ '' ('' @ D @ '')''" by (simp add: A_def Q_def)
    show ?thesis
    proof (cases "\<forall>c \<in> set D. digit c")
      case digits: True
      have "match_quantity A = Some (nm, D)"
        unfolding A by (rule match_quantity_rendered[OF n1 nl n5 n3 dne[OF True] digits])
      with True digits n2 show ?thesis unfolding start by (simp add: D_def)
    next
      case other: False
      have "CHR ''('' \<notin> set D" using dnd[OF True] by blast
      with nl n5 other have "match_quantity A = None"
        unfolding A by (intro match_quantity_not_numeral) simp_all
      with True other show ?thesis unfolding start by (simp add: D_def A)
    qed
  qed
qed

lemma parse_head_blocked:
  assumes n1: "nm \<noteq> []" and n2: "trim nm = nm" and n3: "\<exists>c \<in> set nm. line_terminator c"
    and n4: "\<not> sublist '' // '' nm" and n5: "CHR ''('' \<notin> set nm" and n6: "CHR ''['' \<notin> set nm"
    and n7: "suffix '' //'' nm \<longrightarrow> qty \<le> 1 \<and> ca = []"
    and c3: "\<not> sublist '' // '' ca"
  shows "parseSummary (formatSummary nm qty [] ca) = (formatSummary nm qty [] ca, 1, [], [])"
proof -
  define Q where "Q = (if 1 < qty then '' ('' @ number_to_string qty @ '')'' else [])"
  define C where "C = (if ca \<noteq> [] then '' ['' @ ca @ '']'' else [])"
  define P where "P = nm @ Q @ C"
  have fmt: "formatSummary nm qty [] ca = P"
    by (simp add: formatSummary_head P_def Q_def C_def)
  note shape = head_shape[OF n1 n2 n4 n7 c3, unfolded fmt]
  from trim_fixed_ends[OF n2 n1] have nl: "\<not> js_space (last nm)" by simp
  have j: "indexOf P '' // '' = - 1"
    using shape(5) indexOf_negative[of P "'' // ''"] indexOf_bounds[of P "'' // ''"] by simp
  have nts: "(if indexOf P '' // '' \<ge> 0
              then trim (substring_from P (indexOf P '' // '' + 4)) else []) = []"
    unfolding j by simp
  have name1: "(if indexOf P '' // '' \<ge> 0
                then trim (substring P 0 (indexOf P '' // '')) else P) = P"
    unfolding j by simp
  have cat: "match_category P = None"
    unfolding match_category_def P_def by (rule match_blocked[OF n3 nl n6])
  have qm: "match_quantity P = None"
    unfolding match_quantity_def P_def by (rule match_blocked[OF n3 nl n5])
  show ?thesis
    unfolding fmt parseSummary_def Let_def shape(4) nts name1 cat
    by (simp add: qm)
qed

lemma parse_format_general:
  assumes n1: "nm \<noteq> []" and n2: "trim nm = nm"
    and n4: "\<not> sublist '' // '' nm" and n5: "CHR ''('' \<notin> set nm" and n6: "CHR ''['' \<notin> set nm"
    and n7: "suffix '' //'' nm \<longrightarrow> qty \<le> 1 \<and> ca = [] \<and> no = []"
    and c1: "trim ca = ca" and c2: "CHR '']'' \<notin> set ca" and c3: "\<not> sublist '' // '' ca"
    and o1: "trim no = no"
  shows "parseSummary (formatSummary nm qty no ca)
           = (if \<exists>c \<in> set nm. line_terminator c then (formatSummary nm qty [] ca, 1, no, [])
              else if 1 < qty \<and> \<not> (\<forall>c \<in> set (number_to_string qty). digit c)
              then (nm @ '' ('' @ number_to_string qty @ '')'', 1, no, ca)
              else (nm, if 1 < qty then parseInt (number_to_string qty) else 1, no, ca))"
proof -
  have n7': "suffix '' //'' nm \<longrightarrow> qty \<le> 1 \<and> ca = []" using n7 by simp
  note shape = head_shape[OF n1 n2 n4 n7' c3]
  have head: "parseSummary (formatSummary nm qty [] ca)
           = (if \<exists>c \<in> set nm. line_terminator c then (formatSummary nm qty [] ca, 1, [], [])
              else if 1 < qty \<and> \<not> (\<forall>c \<in> set (number_to_string qty). digit c)
              then (nm @ '' ('' @ number_to_string qty @ '')'', 1, [], ca)
              else (nm, if 1 < qty then parseInt (number_to_string qty) else 1, [], ca))"
  proof (cases "\<exists>c \<in> set nm. line_terminator c")
    case True
    from parse_head_blocked[OF n1 n2 True n4 n5 n6 n7' c3]
    have "parseSummary (formatSummary nm qty [] ca) = (formatSummary nm qty [] ca, 1, [], [])" .
    then show ?thesis unfolding if_P[OF True] .
  next
    case False
    then have "\<forall>c \<in> set nm. \<not> line_terminator c" by simp
    from parse_head_plain[OF n1 n2 this n4 n5 n6 n7' c1 c2 c3]
    show ?thesis unfolding if_not_P[OF False] .
  qed
  show ?thesis
  proof (cases "no = []")
    case True
    from head show ?thesis unfolding True .
  next
    case False
    then have f: "formatSummary nm qty no ca = formatSummary nm qty [] ca @ '' // '' @ no"
      using formatSummary_notes[of nm qty no ca] by simp
    from False n7 shape(6) have "\<not> suffix '' //'' (formatSummary nm qty [] ca)" by auto
    from parse_split[OF shape(1,4,5) this o1 False] head show ?thesis
      unfolding f by (auto split: if_splits)
  qed
qed

lemma formatSummary_max: "formatSummary nm (max 1 qty) no ca = formatSummary nm qty no ca"
  by (auto simp: formatSummary_def max_def)

lemma reencode_general:
  assumes q: "is_number qty" and n1: "nm \<noteq> []" and n2: "trim nm = nm"
    and n4: "\<not> sublist '' // '' nm" and n5: "CHR ''('' \<notin> set nm" and n6: "CHR ''['' \<notin> set nm"
    and n7: "suffix '' //'' nm \<longrightarrow> qty \<le> 1 \<and> ca = [] \<and> no = []"
    and c1: "trim ca = ca" and c2: "CHR '']'' \<notin> set ca" and c3: "\<not> sublist '' // '' ca"
    and o1: "trim no = no"
  shows "reencode (formatSummary nm qty no ca) = formatSummary nm qty no ca"
proof -
  note parsed = parse_format_general[OF n1 n2 n4 n5 n6 n7 c1 c2 c3 o1]
  consider (blocked) "\<exists>c \<in> set nm. line_terminator c"
    | (kept) "\<not> (\<exists>c \<in> set nm. line_terminator c)" and "1 < qty"
        and "\<not> (\<forall>c \<in> set (number_to_string qty). digit c)"
    | (read) "\<not> (\<exists>c \<in> set nm. line_terminator c)" and "1 < qty"
        and "\<forall>c \<in> set (number_to_string qty). digit c"
    | (one) "\<not> (\<exists>c \<in> set nm. line_terminator c)" and "\<not> 1 < qty"
    by blast
  then show ?thesis
  proof cases
    case blocked
    have f: "formatSummary (formatSummary nm qty [] ca) 1 no [] = formatSummary nm qty no ca"
      by (simp add: formatSummary_def Let_def)
    have "parseSummary (formatSummary nm qty no ca) = (formatSummary nm qty [] ca, 1, no, [])"
      using parsed unfolding if_P[OF blocked] .
    then show ?thesis by (simp add: reencode_def f)
  next
    case kept
    have f: "formatSummary (nm @ '' ('' @ number_to_string qty @ '')'') 1 no ca
               = formatSummary nm qty no ca"
      using kept(2) by (simp add: formatSummary_def Let_def)
    have "parseSummary (formatSummary nm qty no ca)
            = (nm @ '' ('' @ number_to_string qty @ '')'', 1, no, ca)"
      using parsed kept unfolding if_not_P[OF kept(1)] by simp
    then show ?thesis unfolding reencode_def by (simp only: prod.case f)
  next
    case read
    have p: "parseInt (number_to_string qty) = qty"
      using rendered_quantity(3)[OF read(2) q read(3)] .
    have "parseSummary (formatSummary nm qty no ca) = (nm, qty, no, ca)"
      using parsed read unfolding if_not_P[OF read(1)] by (simp add: p)
    then show ?thesis by (simp add: reencode_def)
  next
    case one
    have f: "formatSummary nm 1 no ca = formatSummary nm qty no ca"
      using one(2) by (simp add: formatSummary_def Let_def)
    have "parseSummary (formatSummary nm qty no ca) = (nm, 1, no, ca)"
      using parsed one unfolding if_not_P[OF one(1)] by simp
    then show ?thesis by (simp add: reencode_def f)
  qed
qed

subsection \<open>The codec: round trips\<close>

lemma delimiter_freeD:
  assumes "delimiter_free s"
  shows "\<not> sublist '' // '' s" "CHR ''('' \<notin> set s" "CHR '')'' \<notin> set s"
    "CHR ''['' \<notin> set s" "CHR '']'' \<notin> set s"
  using assms by (simp_all add: delimiter_free_def includes_str_sublist)

text \<open>
  Claim C1, as stated, fails. Every field below is free of the delimiter tokens, and the
  decoded record is not the encoded one: a name with a leading space comes back trimmed;
  an empty name with quantity 2 comes back as the name \<open>(2)\<close> with quantity 1; the name
  \<open>a //\<close> with the note \<open>b\<close> comes back as the name \<open>a\<close> with the note \<open>// b\<close>; a name
  with a line feed keeps its quantity in the name; and the quantity \<open>10 ^ 21\<close> is written
  as \<open>1e+21\<close>, which the decoder leaves in the name.
\<close>

theorem parse_format_roundtrip_counterexample:
  "delimiter_free '' Milk'' \<and> delimiter_free []
   \<and> parseSummary (formatSummary '' Milk'' 1 [] []) = (''Milk'', 1, [], [])
   \<and> parseSummary (formatSummary '' Milk'' 1 [] []) \<noteq> ('' Milk'', 1, [], [])
   \<and> parseSummary (formatSummary [] (Finite 2) [] []) = (''(2)'', 1, [], [])
   \<and> delimiter_free ''a //'' \<and> delimiter_free ''b''
   \<and> parseSummary (formatSummary ''a //'' 1 ''b'' []) = (''a'', 1, ''// b'', [])
   \<and> delimiter_free [CHR ''a'', CHR 0x0A, CHR ''b'']
   \<and> parseSummary (formatSummary [CHR ''a'', CHR 0x0A, CHR ''b''] (Finite 2) [] [])
       = ([CHR ''a'', CHR 0x0A, CHR ''b'', CHR '' '', CHR ''('', CHR ''2'', CHR '')''], 1, [], [])
   \<and> delimiter_free ''Milk'' \<and> is_number (Finite (10 ^ 21))
   \<and> formatSummary ''Milk'' (Finite (10 ^ 21)) [] [] = ''Milk (1e+21)''
   \<and> parseSummary (formatSummary ''Milk'' (Finite (10 ^ 21)) [] []) = (''Milk (1e+21)'', 1, [], [])"
  by code_simp

text \<open>
  Claim C1, amended: for a quantity that is a Number of at least 1 and below \<open>10 ^ 21\<close>,
  and fields that hold none of the delimiter tokens and are already trimmed, with a name
  that is not empty, has no line terminator and does not end in \<open> //\<close> (unless nothing
  follows it: quantity 1, no category, no notes), decoding the encoded summary gives back
  the name, the quantity, the notes and the category.
\<close>

theorem parse_format_roundtrip:
  assumes "is_number qty" and "1 \<le> qty" and "qty < Finite (10 ^ 21)"
    and "delimiter_free nm" and "delimiter_free no" and "delimiter_free ca"
    and "trim nm = nm" and "trim no = no" and "trim ca = ca"
    and "nm \<noteq> []" and "\<forall>c \<in> set nm. \<not> line_terminator c"
    and "suffix '' //'' nm \<longrightarrow> qty = 1 \<and> ca = [] \<and> no = []"
  shows "parseSummary (formatSummary nm qty no ca) = (nm, qty, no, ca)"
proof -
  have "suffix '' //'' nm \<longrightarrow> qty \<le> 1 \<and> ca = [] \<and> no = []" using assms(12) by simp
  note parsed = parse_format_general[OF assms(10,7) delimiter_freeD(1,2,4)[OF assms(4)] this
      assms(9) delimiter_freeD(5,1)[OF assms(6)] assms(8)]
  have nb: "\<not> (\<exists>c \<in> set nm. line_terminator c)" using assms(11) by simp
  show ?thesis
  proof (cases "1 < qty")
    case True
    have digits: "\<forall>c \<in> set (number_to_string qty). digit c"
      using rendered_quantity(4)[OF True assms(1,3)] .
    have "parseInt (number_to_string qty) = qty"
      using rendered_quantity(3)[OF True assms(1) digits] .
    with parsed True digits show ?thesis unfolding if_not_P[OF nb] by simp
  next
    case False
    with assms(2) have "qty = 1" by simp
    with parsed show ?thesis unfolding if_not_P[OF nb] by simp
  qed
qed

theorem parse_format_roundtrip_witness:
  "formatSummary ''Bread'' (Finite 3) ''whole grain'' ''Bakery'' = ''Bread (3) [Bakery] // whole grain''
   \<and> parseSummary (formatSummary ''Bread'' (Finite 3) ''whole grain'' ''Bakery'')
       = (''Bread'', Finite 3, ''whole grain'', ''Bakery'')
   \<and> formatSummary ''Eggs'' 1 [] [] = ''Eggs''
   \<and> parseSummary (formatSummary ''Eggs'' 1 [] []) = (''Eggs'', 1, [], [])
   \<and> formatSummary ''Rice'' (Finite (2 ^ 60)) [] [] = ''Rice (1152921504606847000)''
   \<and> parseSummary (formatSummary ''Rice'' (Finite (2 ^ 60)) [] []) = (''Rice'', Finite (2 ^ 60), [], [])"
proof -
  have a: "is_number (Finite 3)" "1 \<le> Finite 3" "Finite 3 < Finite (10 ^ 21)"
    "delimiter_free ''Bread''" "delimiter_free ''whole grain''"
    "delimiter_free ''Bakery''" "trim ''Bread'' = ''Bread''"
    "trim ''whole grain'' = ''whole grain''" "trim ''Bakery'' = ''Bakery''" "''Bread'' \<noteq> []"
    "\<forall>c \<in> set ''Bread''. \<not> line_terminator c"
    by code_simp+
  have a12: "suffix '' //'' ''Bread'' \<longrightarrow> Finite 3 = 1 \<and> ''Bakery'' = [] \<and> ''whole grain'' = []"
    by (simp add: suffix_def)
  have b: "is_number 1" "(1::number) \<le> 1" "1 < Finite (10 ^ 21)"
    "delimiter_free ''Eggs''" "delimiter_free []" "delimiter_free []"
    "trim ''Eggs'' = ''Eggs''" "trim [] = []" "trim [] = []" "''Eggs'' \<noteq> []"
    "\<forall>c \<in> set ''Eggs''. \<not> line_terminator c"
    by code_simp+
  have b12: "suffix '' //'' ''Eggs'' \<longrightarrow> (1::number) = 1 \<and> ([]::string) = [] \<and> ([]::string) = []"
    by simp
  have c: "is_number (Finite (2 ^ 60))" "1 \<le> Finite (2 ^ 60)" "Finite (2 ^ 60) < Finite (10 ^ 21)"
    "delimiter_free ''Rice''" "delimiter_free []" "delimiter_free []"
    "trim ''Rice'' = ''Rice''" "trim [] = []" "trim [] = []" "''Rice'' \<noteq> []"
    "\<forall>c \<in> set ''Rice''. \<not> line_terminator c"
    by code_simp+
  have c12: "suffix '' //'' ''Rice'' \<longrightarrow> Finite (2 ^ 60) = 1 \<and> ([]::string) = [] \<and> ([]::string) = []"
    by (simp add: suffix_def)
  have f: "formatSummary ''Bread'' (Finite 3) ''whole grain'' ''Bakery'' = ''Bread (3) [Bakery] // whole grain''"
    "formatSummary ''Eggs'' 1 [] [] = ''Eggs''"
    "formatSummary ''Rice'' (Finite (2 ^ 60)) [] [] = ''Rice (1152921504606847000)''"
    by code_simp+
  note r = parse_format_roundtrip[OF a a12] parse_format_roundtrip[OF b b12]
    parse_format_roundtrip[OF c c12]
  show ?thesis unfolding f using r[unfolded f] by (intro conjI) (rule refl | assumption)+
qed

text \<open>
  Claim C7, as stated, fails: every string is an output of the encoder (with quantity 1, no
  category and no notes), and decoding and encoding again does not reproduce the encoder's
  output for a name with a leading space, for the name \<open>Milk (1)\<close>, for the name \<open>Milk[a]\<close>,
  for an empty name with quantity 2, for the name \<open>x  //\<close> with quantity 2, for the name
  \<open>a  // b\<close>, for a category with a leading space, for the categories \<open>a ] [ b\<close> and
  \<open>a  // b\<close>, or for a note with a leading space.
\<close>

theorem reencode_counterexample:
  "formatSummary '' Milk'' 1 [] [] = '' Milk''
   \<and> reencode (formatSummary '' Milk'' 1 [] []) = ''Milk''
   \<and> formatSummary ''Milk (1)'' 1 [] [] = ''Milk (1)''
   \<and> reencode (formatSummary ''Milk (1)'' 1 [] []) = ''Milk''
   \<and> formatSummary ''Milk[a]'' 1 [] [] = ''Milk[a]''
   \<and> reencode (formatSummary ''Milk[a]'' 1 [] []) = ''Milk [a]''
   \<and> formatSummary [] (Finite 2) [] [] = '' (2)''
   \<and> reencode (formatSummary [] (Finite 2) [] []) = ''(2)''
   \<and> formatSummary ''x  //'' (Finite 2) [] [] = ''x  // (2)''
   \<and> reencode (formatSummary ''x  //'' (Finite 2) [] []) = ''x // (2)''
   \<and> formatSummary ''a  // b'' 1 [] [] = ''a  // b''
   \<and> reencode (formatSummary ''a  // b'' 1 [] []) = ''a // b''
   \<and> formatSummary ''Milk'' 1 [] '' c'' = ''Milk [ c]''
   \<and> reencode (formatSummary ''Milk'' 1 [] '' c'') = ''Milk [c]''
   \<and> formatSummary ''Milk'' 1 [] ''a ] [ b'' = ''Milk [a ] [ b]''
   \<and> reencode (formatSummary ''Milk'' 1 [] ''a ] [ b'') = ''Milk [a ] [b]''
   \<and> formatSummary ''Milk'' 1 [] ''a  // b'' = ''Milk [a  // b]''
   \<and> reencode (formatSummary ''Milk'' 1 [] ''a  // b'') = ''Milk [a // b]''
   \<and> formatSummary ''Milk'' 1 '' x'' [] = ''Milk //  x''
   \<and> reencode (formatSummary ''Milk'' 1 '' x'' []) = ''Milk // x''"
  by code_simp

text \<open>
  Claim C7, amended: encoding the decoded fields of an encoded summary gives the encoded
  summary again when the fields are already trimmed, the name is not empty, holds none of
  \<open> // \<close>, \<open>(\<close> and \<open>[\<close> and does not end in \<open> //\<close> (unless nothing follows it), and the
  category holds neither \<open>]\<close> nor \<open> // \<close>. The notes may hold any of the delimiter tokens,
  the name may hold \<open>)\<close> and \<open>]\<close>, and the quantity may be any Number.
\<close>

theorem reencode_encoded:
  assumes "is_number qty"
    and "nm \<noteq> []" and "trim nm = nm" and "\<not> includes_str nm '' // ''"
    and "CHR ''('' \<notin> set nm" and "CHR ''['' \<notin> set nm"
    and "suffix '' //'' nm \<longrightarrow> qty \<le> 1 \<and> ca = [] \<and> no = []"
    and "trim ca = ca" and "CHR '']'' \<notin> set ca" and "\<not> includes_str ca '' // ''"
    and "trim no = no"
  shows "reencode (formatSummary nm qty no ca) = formatSummary nm qty no ca"
proof -
  have n4: "\<not> sublist '' // '' nm" using assms(4) by (simp add: includes_str_sublist)
  have c3: "\<not> sublist '' // '' ca" using assms(10) by (simp add: includes_str_sublist)
  show ?thesis
    by (rule reencode_general[OF assms(1,2,3) n4 assms(5,6,7,8,9) c3 assms(11)])
qed

theorem reencode_encoded_witness:
  "reencode (formatSummary ''Bread'' (Finite 3) ''whole grain'' ''Bakery'')
     = ''Bread (3) [Bakery] // whole grain''
   \<and> reencode (formatSummary ''Milk'' 0 ''see (shelf 2) [top] // back'' [])
     = ''Milk // see (shelf 2) [top] // back''
   \<and> reencode (formatSummary ''a) b]'' (Finite 2) ''n'' ''c(['')
     = ''a) b] (2) [c([] // n''
   \<and> reencode (formatSummary ''Milk'' (Finite (10 ^ 21)) [] []) = ''Milk (1e+21)''
   \<and> reencode (formatSummary ''Milk'' Infinity [] ''Dairy'') = ''Milk (Infinity) [Dairy]''"
proof -
  have a: "is_number (Finite 3)" "''Bread'' \<noteq> []" "trim ''Bread'' = ''Bread''"
    "\<not> includes_str ''Bread'' '' // ''" "CHR ''('' \<notin> set ''Bread''" "CHR ''['' \<notin> set ''Bread''"
    by code_simp+
  have a7: "suffix '' //'' ''Bread'' \<longrightarrow> Finite 3 \<le> 1 \<and> ''Bakery'' = [] \<and> ''whole grain'' = []"
    by (simp add: suffix_def)
  have a': "trim ''Bakery'' = ''Bakery''" "CHR '']'' \<notin> set ''Bakery''"
    "\<not> includes_str ''Bakery'' '' // ''" "trim ''whole grain'' = ''whole grain''"
    by code_simp+
  have b: "is_number 0" "''Milk'' \<noteq> []" "trim ''Milk'' = ''Milk''"
    "\<not> includes_str ''Milk'' '' // ''" "CHR ''('' \<notin> set ''Milk''" "CHR ''['' \<notin> set ''Milk''"
    by code_simp+
  have b7: "suffix '' //'' ''Milk'' \<longrightarrow> (0::number) \<le> 1 \<and> ([]::string) = []
              \<and> ''see (shelf 2) [top] // back'' = []"
    by (simp add: suffix_def)
  have b': "trim [] = []" "CHR '']'' \<notin> set []" "\<not> includes_str [] '' // ''"
    "trim ''see (shelf 2) [top] // back'' = ''see (shelf 2) [top] // back''"
    by code_simp+
  have c: "is_number (Finite 2)" "''a) b]'' \<noteq> []" "trim ''a) b]'' = ''a) b]''"
    "\<not> includes_str ''a) b]'' '' // ''" "CHR ''('' \<notin> set ''a) b]''" "CHR ''['' \<notin> set ''a) b]''"
    by code_simp+
  have c7: "suffix '' //'' ''a) b]'' \<longrightarrow> Finite 2 \<le> 1 \<and> ''c(['' = [] \<and> ''n'' = []"
    by (simp add: suffix_def)
  have c': "trim ''c(['' = ''c([''" "CHR '']'' \<notin> set ''c([''" "\<not> includes_str ''c(['' '' // ''"
    "trim ''n'' = ''n''"
    by code_simp+
  have d: "is_number (Finite (10 ^ 21))" "is_number Infinity" by code_simp+
  have d7: "suffix '' //'' ''Milk'' \<longrightarrow> Finite (10 ^ 21) \<le> 1 \<and> ([]::string) = [] \<and> ([]::string) = []"
    "suffix '' //'' ''Milk'' \<longrightarrow> Infinity \<le> 1 \<and> ''Dairy'' = [] \<and> ([]::string) = []"
    by (simp_all add: suffix_def)
  have d': "trim ''Dairy'' = ''Dairy''" "CHR '']'' \<notin> set ''Dairy''"
    "\<not> includes_str ''Dairy'' '' // ''"
    by code_simp+
  have f: "formatSummary ''Bread'' (Finite 3) ''whole grain'' ''Bakery''
             = ''Bread (3) [Bakery] // whole grain''"
    "formatSummary ''Milk'' 0 ''see (shelf 2) [top] // back'' []
       = ''Milk // see (shelf 2) [top] // back''"
    "formatSummary ''a) b]'' (Finite 2) ''n'' ''c(['' = ''a) b] (2) [c([] // n''"
    "formatSummary ''Milk'' (Finite (10 ^ 21)) [] [] = ''Milk (1e+21)''"
    "formatSummary ''Milk'' Infinity [] ''Dairy'' = ''Milk (Infinity) [Dairy]''"
    by code_simp+
  note r = reencode_encoded[OF a a7 a'] reencode_encoded[OF b b7 b']
    reencode_encoded[OF c c7 c'] reencode_encoded[OF d(1) b(2-6) d7(1) b'(1-3) b'(1)]
    reencode_encoded[OF d(2) b(2-6) d7(2) d' b'(1)]
  show ?thesis unfolding f using r[unfolded f] by (intro conjI) assumption+
qed

subsection \<open>The fuzzy matcher\<close>

lemma fuzzy_loop_subseq:
  "qi \<le> length q \<Longrightarrow>
   fst (fuzzy_loop t q ti qi score lastIdx) = length q \<longleftrightarrow> subseq (drop qi q) (drop ti t)"
proof (induction t q ti qi score lastIdx rule: fuzzy_loop.induct)
  case (1 t q ti qi score lastIdx)
  show ?case
  proof (cases "ti < length t \<and> qi < length q")
    case True
    then have dq: "drop qi q = q ! qi # drop (Suc qi) q" and dt: "drop ti t = t ! ti # drop (Suc ti) t"
      by (simp_all add: Cons_nth_drop_Suc)
    show ?thesis
    proof (cases "t ! ti = q ! qi")
      case eq: True
      with True 1 show ?thesis
        by (subst fuzzy_loop.simps) (simp add: dq dt)
    next
      case neq: False
      with True 1 show ?thesis
        by (subst fuzzy_loop.simps) (simp add: dq dt)
    qed
  next
    case False
    show ?thesis
    proof (cases "qi < length q")
      case lt: True
      with False have "drop ti t = []" by simp
      moreover from lt have "drop qi q \<noteq> []" by simp
      ultimately show ?thesis using lt False
        by (subst fuzzy_loop.simps) simp
    next
      case ge: False
      with 1(3) show ?thesis
        by (subst fuzzy_loop.simps) simp
    qed
  qed
qed

lemma fuzzy_loop_fst_ge: "qi \<le> fst (fuzzy_loop t q ti qi score lastIdx)"
proof (induction t q ti qi score lastIdx rule: fuzzy_loop.induct)
  case (1 t q ti qi score lastIdx)
  show ?case
    using 1 by (subst fuzzy_loop.simps) (auto simp del: fuzzy_loop.simps)
qed

lemma fuzzy_loop_score_lower:
  "score + 10 * (int (fst (fuzzy_loop t q ti qi score lastIdx)) - int qi)
     \<le> snd (fuzzy_loop t q ti qi score lastIdx)"
proof (induction t q ti qi score lastIdx rule: fuzzy_loop.induct)
  case (1 t q ti qi score lastIdx)
  show ?case
    using 1 by (subst (1 2) fuzzy_loop.simps) (auto simp del: fuzzy_loop.simps)
qed

lemma fuzzy_loop_score_upper:
  "snd (fuzzy_loop t q ti qi score lastIdx)
     \<le> score + 15 * (int (fst (fuzzy_loop t q ti qi score lastIdx)) - int qi)"
proof (induction t q ti qi score lastIdx rule: fuzzy_loop.induct)
  case (1 t q ti qi score lastIdx)
  show ?case
    using 1 by (subst (1 2) fuzzy_loop.simps) (auto simp del: fuzzy_loop.simps)
qed

lemma fuzzy_loop_stop:
  assumes "\<not> (ti < length t \<and> qi < length q)"
  shows "fuzzy_loop t q ti qi score lastIdx = (qi, score)"
  by (subst fuzzy_loop.simps) (rule if_not_P[OF assms])

lemma fuzzy_loop_no_bonus_next:
  "lastIdx = - 1 \<or> lastIdx < int ti - 1 \<Longrightarrow> qi < length q \<Longrightarrow>
   fst (fuzzy_loop t q ti qi score lastIdx) = length q \<Longrightarrow>
   snd (fuzzy_loop t q ti qi score lastIdx) \<le> score + 15 * (int (length q) - int qi) - 5"
proof (induction t q ti qi score lastIdx rule: fuzzy_loop.induct)
  case (1 t q ti qi score lastIdx)
  have step: "ti < length t \<and> qi < length q"
  proof (rule ccontr)
    assume "\<not> ?thesis"
    then have "fuzzy_loop t q ti qi score lastIdx = (qi, score)"
      by (rule fuzzy_loop_stop)
    with 1(4,5) show False by simp
  qed
  show ?case
  proof (cases "t ! ti = q ! qi")
    case True
    have nb: "\<not> (lastIdx \<noteq> - 1 \<and> int ti - lastIdx = 1)"
      using 1(3) by auto
    have eq: "fuzzy_loop t q ti qi score lastIdx = fuzzy_loop t q (ti + 1) (qi + 1) (score + 10) (int ti)"
      using step True by (subst fuzzy_loop.simps) (simp only: if_True if_not_P[OF nb] simp_thms)
    have "snd (fuzzy_loop t q (ti + 1) (qi + 1) (score + 10) (int ti))
            \<le> (score + 10) + 15 * (int (fst (fuzzy_loop t q (ti + 1) (qi + 1) (score + 10) (int ti))) - int (qi + 1))"
      by (rule fuzzy_loop_score_upper)
    with eq 1(5) show ?thesis by simp
  next
    case False
    have eq: "fuzzy_loop t q ti qi score lastIdx = fuzzy_loop t q (ti + 1) qi score lastIdx"
      using step False by (subst fuzzy_loop.simps) simp
    have "lastIdx = - 1 \<or> lastIdx < int (ti + 1) - 1" using 1(3) by auto
    from 1(2)[OF step False this 1(4)] eq 1(5) show ?thesis by simp
  qed
qed

lemma fuzzy_loop_adjacent_or_gap:
  "lastIdx = int ti - 1 \<Longrightarrow> lastIdx \<noteq> - 1 \<Longrightarrow> qi \<le> length q \<Longrightarrow>
   fst (fuzzy_loop t q ti qi score lastIdx) = length q \<Longrightarrow>
   prefix (drop qi q) (drop ti t) \<or>
   snd (fuzzy_loop t q ti qi score lastIdx) \<le> score + 15 * (int (length q) - int qi) - 5"
proof (induction t q ti qi score lastIdx rule: fuzzy_loop.induct)
  case (1 t q ti qi score lastIdx)
  show ?case
  proof (cases "qi < length q")
    case False
    with 1(5) show ?thesis by simp
  next
    case lt: True
    have step: "ti < length t \<and> qi < length q"
    proof (rule ccontr)
      assume "\<not> ?thesis"
      then have "fuzzy_loop t q ti qi score lastIdx = (qi, score)"
        by (rule fuzzy_loop_stop)
      with lt 1(6) show False by simp
    qed
    then have dq: "drop qi q = q ! qi # drop (Suc qi) q" and dt: "drop ti t = t ! ti # drop (Suc ti) t"
      by (simp_all add: Cons_nth_drop_Suc)
    show ?thesis
    proof (cases "t ! ti = q ! qi")
      case True
      have b: "lastIdx \<noteq> - 1 \<and> int ti - lastIdx = 1" using 1(3,4) by simp
      have eq: "fuzzy_loop t q ti qi score lastIdx = fuzzy_loop t q (ti + 1) (qi + 1) (score + 10 + 5) (int ti)"
        using step True by (subst fuzzy_loop.simps) (simp only: if_True if_P[OF b] simp_thms)
      have "prefix (drop (qi + 1) q) (drop (ti + 1) t) \<or>
            snd (fuzzy_loop t q (ti + 1) (qi + 1) (score + 10 + 5) (int ti))
              \<le> (score + 10 + 5) + 15 * (int (length q) - int (qi + 1)) - 5"
        using 1(1)[OF step True, unfolded if_P[OF b]] lt eq 1(6) by simp
      then show ?thesis using eq True by (auto simp: dq dt)
    next
      case False
      have eq: "fuzzy_loop t q ti qi score lastIdx = fuzzy_loop t q (ti + 1) qi score lastIdx"
        using step False by (subst fuzzy_loop.simps) simp
      have "lastIdx = - 1 \<or> lastIdx < int (ti + 1) - 1" using 1(3) by simp
      from fuzzy_loop_no_bonus_next[OF this lt] eq 1(6) show ?thesis by simp
    qed
  qed
qed

lemma fuzzy_loop_gap_bound:
  "qi = 0 \<Longrightarrow> lastIdx = - 1 \<Longrightarrow> q \<noteq> [] \<Longrightarrow>
   fst (fuzzy_loop t q ti qi score lastIdx) = length q \<Longrightarrow>
   (\<forall>k\<ge>ti. \<not> prefix q (drop k t)) \<Longrightarrow>
   snd (fuzzy_loop t q ti qi score lastIdx) \<le> score + 15 * int (length q) - 10"
proof (induction t q ti qi score lastIdx rule: fuzzy_loop.induct)
  case (1 t q ti qi score lastIdx)
  have lt: "qi < length q" using 1(3,5) by simp
  have step: "ti < length t \<and> qi < length q"
  proof (rule ccontr)
    assume "\<not> ?thesis"
    then have "fuzzy_loop t q ti qi score lastIdx = (qi, score)"
      by (rule fuzzy_loop_stop)
    with lt 1(6) show False by simp
  qed
  then have dt: "drop ti t = t ! ti # drop (Suc ti) t"
    by (simp add: Cons_nth_drop_Suc)
  have dq: "q = q ! 0 # drop (Suc 0) q"
    using 1(5) by (cases q) simp_all
  show ?case
  proof (cases "t ! ti = q ! qi")
    case True
    have eq: "fuzzy_loop t q ti qi score lastIdx = fuzzy_loop t q (ti + 1) (qi + 1) (score + 10) (int ti)"
      using step True 1(4) by (subst fuzzy_loop.simps) simp
    have np: "\<not> prefix (drop (qi + 1) q) (drop (ti + 1) t)"
    proof
      assume "prefix (drop (qi + 1) q) (drop (ti + 1) t)"
      then have "prefix (q ! 0 # drop (Suc 0) q) (t ! ti # drop (Suc ti) t)"
        using True 1(3) by simp
      then have "prefix q (drop ti t)" using dq dt by simp
      with 1(7) show False by blast
    qed
    have "int ti = int (ti + 1) - 1" by simp
    from fuzzy_loop_adjacent_or_gap[OF this, of "qi + 1" q t "score + 10"] np eq 1(6) lt
    show ?thesis using 1(3) by simp
  next
    case False
    have eq: "fuzzy_loop t q ti qi score lastIdx = fuzzy_loop t q (ti + 1) qi score lastIdx"
      using step False by (subst fuzzy_loop.simps) simp
    have "\<forall>k\<ge>ti + 1. \<not> prefix q (drop k t)" using 1(7) by simp
    from 1(2)[OF step False 1(3) 1(4) 1(5) _ this] eq 1(6) show ?thesis by simp
  qed
qed

lemma prefix_drop_sublist: "prefix p (drop k s) \<Longrightarrow> sublist p s"
proof -
  assume "prefix p (drop k s)"
  then obtain r where "drop k s = p @ r" by (auto simp: prefix_def)
  then have "s = take k s @ p @ r" by (metis append_take_drop_id)
  then show ?thesis unfolding sublist_def by blast
qed

lemma fuzzyScore_substring_tier:
  "includes_str (toLowerCase target) (toLowerCase query) \<Longrightarrow>
   fuzzyScore query target = 1000 - indexOf (toLowerCase target) (toLowerCase query)"
  by (simp add: fuzzyScore_def)

lemma fuzzyScore_subsequence_tier_bound:
  assumes "\<not> includes_str (toLowerCase target) (toLowerCase query)"
  shows "fuzzyScore query target \<le> 15 * int (length (toLowerCase query)) - 10"
proof -
  let ?q = "toLowerCase query" and ?t = "toLowerCase target"
  have ns: "\<not> sublist ?q ?t" using assms by (simp add: includes_str_sublist)
  then have ne: "?q \<noteq> []" by auto
  then have len: "1 \<le> length ?q" by (cases ?q) simp_all
  obtain qi score where r: "fuzzy_loop ?t ?q 0 0 0 (- 1) = (qi, score)"
    by (cases "fuzzy_loop ?t ?q 0 0 0 (- 1)")
  have sc: "fuzzyScore query target = (if qi = length ?q then score else 0)"
    using assms r by (simp add: fuzzyScore_def)
  show ?thesis
  proof (cases "qi = length ?q")
    case True
    have "\<forall>k\<ge>0. \<not> prefix ?q (drop k ?t)" using ns prefix_drop_sublist by blast
    from fuzzy_loop_gap_bound[OF refl refl ne _ this, of 0] r True
    have "score \<le> 15 * int (length ?q) - 10" by simp
    with sc True show ?thesis by simp
  next
    case False
    with sc len show ?thesis by simp
  qed
qed

lemma fuzzyScore_subsequence_tier:
  assumes "\<not> includes_str (toLowerCase target) (toLowerCase query)"
  shows "0 \<le> fuzzyScore query target \<and>
         (fuzzyScore query target = 0 \<longleftrightarrow> \<not> subseq (toLowerCase query) (toLowerCase target))"
proof -
  let ?q = "toLowerCase query" and ?t = "toLowerCase target"
  have ns: "\<not> sublist ?q ?t" using assms by (simp add: includes_str_sublist)
  then have ne: "?q \<noteq> []" by auto
  obtain qi score where r: "fuzzy_loop ?t ?q 0 0 0 (- 1) = (qi, score)"
    by (cases "fuzzy_loop ?t ?q 0 0 0 (- 1)")
  have sc: "fuzzyScore query target = (if qi = length ?q then score else 0)"
    using assms r by (simp add: fuzzyScore_def)
  have sub: "qi = length ?q \<longleftrightarrow> subseq ?q ?t"
    using fuzzy_loop_subseq[of 0 ?q ?t 0 0 "- 1"] r by simp
  have low: "10 * int qi \<le> score"
    using fuzzy_loop_score_lower[of 0 ?t ?q 0 0 "- 1"] r by simp
  show ?thesis
  proof (cases "qi = length ?q")
    case True
    with low ne have "10 \<le> score" by (cases ?q) simp_all
    with sc sub True show ?thesis by simp
  next
    case False
    with sc sub show ?thesis by simp
  qed
qed

lemma lower_char_a: "lower_char (CHR ''a'') = CHR ''a''" and lower_char_b: "lower_char (CHR ''b'') = CHR ''b''"
  by (simp_all add: lower_char_def)

lemma indexOf_after_replicate: "c \<noteq> d \<Longrightarrow> indexOf (replicate n c @ [d]) [d] = int n"
  by (induction n) simp_all

lemma subseq_singleton_last: "subseq [d] (xs @ [d])"
  by (rule list_emb_append2) simp

lemma fuzzyScore_far_match:
  "fuzzyScore ''b'' (replicate n (CHR ''a'') @ ''b'') = 1000 - int n"
proof -
  have t: "toLowerCase (replicate n (CHR ''a'') @ ''b'') = replicate n (CHR ''a'') @ ''b''"
    by (simp add: toLowerCase_def lower_char_a lower_char_b)
  have q: "toLowerCase ''b'' = ''b''"
    by (simp add: toLowerCase_def lower_char_b)
  have i: "indexOf (replicate n (CHR ''a'') @ ''b'') ''b'' = int n"
    by (rule indexOf_after_replicate) simp
  show ?thesis
    by (simp add: fuzzyScore_def t q i includes_str_def)
qed

text \<open>
  Claim C6, as stated, fails: a match that starts at index 1001 of the target scores
  \<open>-1\<close>, and a match that starts at index 1000 scores \<open>0\<close> although the query is a
  subsequence of the target.
\<close>

theorem fuzzyScore_negative_counterexample:
  "fuzzyScore ''b'' (replicate 1001 (CHR ''a'') @ ''b'') < 0
   \<and> fuzzyScore ''b'' (replicate 1000 (CHR ''a'') @ ''b'') = 0
   \<and> subseq (toLowerCase ''b'') (toLowerCase (replicate 1000 (CHR ''a'') @ ''b''))"
  by (simp add: fuzzyScore_far_match toLowerCase_def subseq_singleton_last)

text \<open>
  Claim C6, amended: when the first occurrence of the lower-cased query in the lower-cased
  target, if there is one, starts before index 1000, the score is a non-negative integer,
  and it is 0 exactly when the query is not a case-insensitive subsequence of the target.
\<close>

theorem fuzzyScore_zero_iff_no_subsequence:
  assumes "indexOf (toLowerCase target) (toLowerCase query) < 1000"
  shows "0 \<le> fuzzyScore query target \<and>
         (fuzzyScore query target = 0
            \<longleftrightarrow> \<not> subseq (toLowerCase query) (toLowerCase target))"
proof (cases "includes_str (toLowerCase target) (toLowerCase query)")
  case True
  then have "subseq (toLowerCase query) (toLowerCase target)"
    by (simp add: includes_str_sublist sublist_imp_subseq)
  moreover have "fuzzyScore query target
                   = 1000 - indexOf (toLowerCase target) (toLowerCase query)"
    using True by (rule fuzzyScore_substring_tier)
  ultimately show ?thesis using assms by simp
next
  case False
  then show ?thesis by (rule fuzzyScore_subsequence_tier)
qed

theorem fuzzyScore_zero_iff_no_subsequence_witness:
  "0 \<le> fuzzyScore ''mlk'' ''Oat Milk'' \<and>
   (fuzzyScore ''mlk'' ''Oat Milk'' = 0
      \<longleftrightarrow> \<not> subseq (toLowerCase ''mlk'') (toLowerCase ''Oat Milk''))
   \<and> fuzzyScore ''mlk'' ''Oat Milk'' = 35
   \<and> 0 \<le> fuzzyScore ''MIL'' ''Oat Milk'' \<and>
   (fuzzyScore ''MIL'' ''Oat Milk'' = 0
      \<longleftrightarrow> \<not> subseq (toLowerCase ''MIL'') (toLowerCase ''Oat Milk''))
   \<and> fuzzyScore ''MIL'' ''Oat Milk'' = 996
   \<and> 0 \<le> fuzzyScore ''xyz'' ''Oat Milk'' \<and>
   (fuzzyScore ''xyz'' ''Oat Milk'' = 0
      \<longleftrightarrow> \<not> subseq (toLowerCase ''xyz'') (toLowerCase ''Oat Milk''))
   \<and> fuzzyScore ''xyz'' ''Oat Milk'' = 0"
proof -
  have h1: "indexOf (toLowerCase ''Oat Milk'') (toLowerCase ''mlk'') < 1000" by code_simp
  have h2: "indexOf (toLowerCase ''Oat Milk'') (toLowerCase ''MIL'') < 1000" by code_simp
  have h3: "indexOf (toLowerCase ''Oat Milk'') (toLowerCase ''xyz'') < 1000" by code_simp
  have v1: "fuzzyScore ''mlk'' ''Oat Milk'' = 35" by code_simp
  have v2: "fuzzyScore ''MIL'' ''Oat Milk'' = 996" by code_simp
  have v3: "fuzzyScore ''xyz'' ''Oat Milk'' = 0" by code_simp
  note t1 = fuzzyScore_zero_iff_no_subsequence[OF h1]
  note t2 = fuzzyScore_zero_iff_no_subsequence[OF h2]
  note t3 = fuzzyScore_zero_iff_no_subsequence[OF h3]
  from t1 t2 t3 v1 v2 v3 show ?thesis
    by (elim conjE) (intro conjI; assumption)
qed

text \<open>
  Claim C5, as stated, fails: the query \<open>a\<close> occurs in the target \<open>a\<close> and scores 1000,
  while a query of 68 characters that matches its target only with a gap scores 1010.
\<close>

theorem substring_tier_outranks_counterexample:
  "includes_str (toLowerCase ''a'') (toLowerCase ''a'')
   \<and> \<not> includes_str (toLowerCase (replicate 67 (CHR ''a'') @ ''xb''))
                     (toLowerCase (replicate 67 (CHR ''a'') @ ''b''))
   \<and> subseq (toLowerCase (replicate 67 (CHR ''a'') @ ''b''))
             (toLowerCase (replicate 67 (CHR ''a'') @ ''xb''))
   \<and> fuzzyScore ''a'' ''a'' = 1000
   \<and> fuzzyScore (replicate 67 (CHR ''a'') @ ''b'') (replicate 67 (CHR ''a'') @ ''xb'') = 1010"
  by code_simp

text \<open>
  Claim C5, amended: when the query occurs in the target, case-insensitively, with its
  first occurrence at index \<open>i\<close>, and \<open>query'\<close> does not occur in \<open>target'\<close>, then the score
  of \<open>query\<close> against \<open>target\<close> is greater than the score of \<open>query'\<close> against \<open>target'\<close>,
  provided \<open>i + 15 * n < 1010\<close>, where \<open>n\<close> is the length of the lower-cased \<open>query'\<close>,
  the string that the loop of the matcher runs over (in JavaScript it can be longer than
  \<open>query'\<close>).
\<close>

theorem substring_tier_outranks:
  assumes "includes_str (toLowerCase target) (toLowerCase query)"
    and "\<not> includes_str (toLowerCase target') (toLowerCase query')"
    and "indexOf (toLowerCase target) (toLowerCase query)
           + 15 * int (length (toLowerCase query')) < 1010"
  shows "fuzzyScore query' target' < fuzzyScore query target"
proof -
  have "fuzzyScore query' target' \<le> 15 * int (length (toLowerCase query')) - 10"
    using assms(2) by (rule fuzzyScore_subsequence_tier_bound)
  moreover have "fuzzyScore query target
                   = 1000 - indexOf (toLowerCase target) (toLowerCase query)"
    using assms(1) by (rule fuzzyScore_substring_tier)
  ultimately show ?thesis using assms(3) by simp
qed

theorem substring_tier_outranks_witness:
  "fuzzyScore ''mlk'' ''Oat Milk'' < fuzzyScore ''MIL'' ''Oat Milk''"
proof -
  have h1: "includes_str (toLowerCase ''Oat Milk'') (toLowerCase ''MIL'')" by code_simp
  have h2: "\<not> includes_str (toLowerCase ''Oat Milk'') (toLowerCase ''mlk'')" by code_simp
  have h3: "indexOf (toLowerCase ''Oat Milk'') (toLowerCase ''MIL'')
              + 15 * int (length (toLowerCase ''mlk'')) < 1010"
    by code_simp
  show ?thesis by (rule substring_tier_outranks[OF h1 h2 h3])
qed

subsection \<open>The engine: remote calls and timeouts\<close>

lemma callService_eq:
  "callService env s d st =
     (None, if hass st
            then st\<lparr>calls := calls st @ [CallService s d (entity st)],
                    console := console st @
                      (case service_reply env (length (calls st)) of
                         None \<Rightarrow> [] | Some e \<Rightarrow> [(''ESL: todo.'' @ s @ '' error'', e)])\<rparr>
            else st)"
  by (simp add: callService_def tryCatch_def split: option.split)

lemma fetchItems_eq:
  "fetchItems env st =
     (None, if hass st \<and> entity st \<noteq> []
            then (case ws_reply env (length (calls st)) of
                    Inl e \<Rightarrow> st\<lparr>calls := calls st @ [CallWS (entity st)],
                                 console := console st @ [(''ESL: fetch failed'', e)]\<rparr>
                  | Inr res \<Rightarrow> st\<lparr>calls := calls st @ [CallWS (entity st)],
                                   items := map from_raw (case res of None \<Rightarrow> [] | Some its \<Rightarrow> its)\<rparr>)
            else st)"
  by (simp add: fetchItems_def fetchItems_try_def tryCatch_def updateLists_def Let_def
           split: sum.split)

lemma andThen_resolved: "p st = (None, st1) \<Longrightarrow> andThen p q st = q st1"
  by (simp add: andThen_def)


lemma qtyTimer_fire_eq:
  "qtyTimer_fire env t st =
     fetchItems env
       (snd (callService env ''update_item''
          (Item_rename (c_uid t) (formatSummary (c_name t) (c_q t) (c_notes t) (c_category t)))
          (st\<lparr>qtyTimers := (qtyTimers st)(c_uid t := None)\<rparr>)))"
  by (simp add: qtyTimer_fire_def andThen_def callService_eq)

lemma qtyTimer_fire_frame:
  "hass (snd (qtyTimer_fire env t st)) = hass st"
  "entity (snd (qtyTimer_fire env t st)) = entity st"
  "timers (snd (qtyTimer_fire env t st)) = timers st"
  "nextHandle (snd (qtyTimer_fire env t st)) = nextHandle st"
  "clock (snd (qtyTimer_fire env t st)) = clock st"
  "qtyTimers (snd (qtyTimer_fire env t st)) = (qtyTimers st)(c_uid t := None)"
  by (simp_all add: qtyTimer_fire_eq fetchItems_eq callService_eq split: sum.split)

lemma qtyTimer_fire_calls:
  "calls (snd (qtyTimer_fire env t st)) = calls st @ fire_trace (hass st) (entity st) t"
  by (simp add: qtyTimer_fire_eq fetchItems_eq callService_eq fire_trace_def rename_call_def split: sum.split)

lemma fire_all_frame:
  "hass (fire_all env ts st) = hass st"
  "entity (fire_all env ts st) = entity st"
  "timers (fire_all env ts st) = timers st"
  "nextHandle (fire_all env ts st) = nextHandle st"
  "clock (fire_all env ts st) = clock st"
  by (induction ts arbitrary: st) (simp_all add: qtyTimer_fire_frame)

lemma fire_all_qtyTimers:
  "qtyTimers (fire_all env ts st) u = (if u \<in> c_uid ` set ts then None else qtyTimers st u)"
  by (induction ts arbitrary: st) (auto simp: qtyTimer_fire_frame)

lemma fire_all_calls:
  "calls (fire_all env ts st) = calls st @ concat (map (fire_trace (hass st) (entity st)) ts)"
  by (induction ts arbitrary: st) (simp_all add: qtyTimer_fire_frame qtyTimer_fire_calls)

lemma elapse_frame:
  "hass (elapse env d st) = hass st"
  "entity (elapse env d st) = entity st"
  "nextHandle (elapse env d st) = nextHandle st"
  "clock (elapse env d st) = clock st + d"
  "timers (elapse env d st) = filter (\<lambda>t. \<not> due t \<le> clock st + d) (timers st)"
  by (simp_all add: elapse_def Let_def fire_all_frame)

lemma elapse_calls:
  "calls (elapse env d st) =
     calls st @ concat (map (fire_trace (hass st) (entity st))
                          (filter (\<lambda>t. due t \<le> clock st + d) (timers st)))"
  by (simp add: elapse_def Let_def fire_all_calls)

lemma elapse_qtyTimers:
  "qtyTimers (elapse env d st) u =
     (if u \<in> c_uid ` {t \<in> set (timers st). due t \<le> clock st + d} then None
      else qtyTimers st u)"
  by (simp add: elapse_def Let_def fire_all_qtyTimers)

lemma timers_ok_one_per_uid:
  assumes "timers_ok st" "t \<in> set (timers st)" "t' \<in> set (timers st)" "c_uid t = c_uid t'"
  shows "t = t'"
proof -
  have "qtyTimers st (c_uid t) = Some (handle t)" "qtyTimers st (c_uid t') = Some (handle t')"
    using assms(1,2,3) by (simp_all add: timers_ok_def)
  then have "handle t = handle t'" using assms(4) by simp
  moreover have "inj_on handle (set (timers st))"
    using assms(1) by (simp add: timers_ok_def distinct_map)
  ultimately show ?thesis using assms(2,3) by (auto dest: inj_onD)
qed

lemma elapse_timers_ok:
  assumes "timers_ok st"
  shows "timers_ok (elapse env d st)"
proof -
  have d: "distinct (map handle (timers (elapse env d st)))"
    using assms by (simp add: elapse_frame timers_ok_def distinct_map_filter)
  have "qtyTimers (elapse env d st) (c_uid t) = Some (handle t) \<and> handle t < nextHandle (elapse env d st)"
    if t: "t \<in> set (timers (elapse env d st))" for t
  proof -
    from t have tin: "t \<in> set (timers st)" and nd: "\<not> due t \<le> clock st + d"
      by (simp_all add: elapse_frame)
    have "c_uid t \<notin> c_uid ` {t' \<in> set (timers st). due t' \<le> clock st + d}"
    proof
      assume "c_uid t \<in> c_uid ` {t' \<in> set (timers st). due t' \<le> clock st + d}"
      then obtain t' where "t' \<in> set (timers st)" "due t' \<le> clock st + d" "c_uid t = c_uid t'"
        by auto
      with timers_ok_one_per_uid[OF assms tin] nd show False by auto
    qed
    with assms tin show ?thesis by (simp add: elapse_qtyTimers elapse_frame timers_ok_def)
  qed
  with d show ?thesis by (simp add: timers_ok_def)
qed


lemma updateQuantity_eq:
  "updateQuantity item newQty st =
     st\<lparr>items := mutate_first (\<lambda>i. uid i = uid item)
                 (\<lambda>l. l\<lparr>quantity := max 1 newQty,
                        summary := formatSummary (c_name (scheduled item newQty st)) (max 1 newQty)
                                     (c_notes (scheduled item newQty st))
                                     (c_category (scheduled item newQty st))\<rparr>)
                 (items st),
        timers := filter (\<lambda>t. Some (handle t) \<noteq> qtyTimers st (uid item)) (timers st)
                    @ [scheduled item newQty st],
        nextHandle := nextHandle st + 1,
        qtyTimers := (qtyTimers st)(uid item \<mapsto> nextHandle st)\<rparr>"
  by (cases "qtyTimers st (uid item)")
     (simp_all add: updateQuantity_def scheduled_def clearTimeout_def setTimeout_def Let_def)

lemma updateQuantity_frame:
  "hass (updateQuantity item newQty st) = hass st"
  "entity (updateQuantity item newQty st) = entity st"
  "clock (updateQuantity item newQty st) = clock st"
  "calls (updateQuantity item newQty st) = calls st"
  "console (updateQuantity item newQty st) = console st"
  "inputValue (updateQuantity item newQty st) = inputValue st"
  "nextHandle (updateQuantity item newQty st) = nextHandle st + 1"
  "qtyTimers (updateQuantity item newQty st) = (qtyTimers st)(uid item \<mapsto> nextHandle st)"
  "timers (updateQuantity item newQty st) =
     filter (\<lambda>t. Some (handle t) \<noteq> qtyTimers st (uid item)) (timers st)
       @ [scheduled item newQty st]"
  by (simp_all add: updateQuantity_eq)

lemma scheduled_sel:
  "handle (scheduled item newQty st) = nextHandle st"
  "due (scheduled item newQty st) = clock st + 500"
  "c_uid (scheduled item newQty st) = uid item"
  "c_q (scheduled item newQty st) = max 1 newQty"
  by (simp_all add: scheduled_def Let_def)

lemma updateQuantity_own_timer:
  assumes "timers_ok st"
  shows "filter (\<lambda>t. c_uid t = uid item) (timers (updateQuantity item newQty st))
           = [scheduled item newQty st]"
proof -
  have "\<not> (Some (handle t) \<noteq> qtyTimers st (uid item) \<and> c_uid t = uid item)"
    if "t \<in> set (timers st)" for t
    using assms that by (auto simp: timers_ok_def)
  then have "filter (\<lambda>t. c_uid t = uid item)
               (filter (\<lambda>t. Some (handle t) \<noteq> qtyTimers st (uid item)) (timers st)) = []"
    by (auto simp: filter_empty_conv)
  then show ?thesis by (simp add: updateQuantity_frame scheduled_sel)
qed

lemma updateQuantity_timers_ok:
  assumes "timers_ok st"
  shows "timers_ok (updateQuantity item newQty st)"
proof -
  let ?keep = "filter (\<lambda>t. Some (handle t) \<noteq> qtyTimers st (uid item)) (timers st)"
  have lt: "handle t < nextHandle st" if "t \<in> set (timers st)" for t
    using assms that by (simp add: timers_ok_def)
  have "distinct (map handle ?keep)"
    using assms by (simp add: timers_ok_def distinct_map_filter)
  moreover have "nextHandle st \<notin> handle ` set ?keep" using lt by fastforce
  ultimately have d: "distinct (map handle (timers (updateQuantity item newQty st)))"
    by (simp add: updateQuantity_frame scheduled_sel)
  have "qtyTimers (updateQuantity item newQty st) (c_uid t) = Some (handle t)
        \<and> handle t < nextHandle (updateQuantity item newQty st)"
    if t: "t \<in> set (timers (updateQuantity item newQty st))" for t
  proof (cases "t = scheduled item newQty st")
    case True
    then show ?thesis by (simp add: updateQuantity_frame scheduled_sel)
  next
    case False
    with t have tin: "t \<in> set (timers st)" and ne: "Some (handle t) \<noteq> qtyTimers st (uid item)"
      by (simp_all add: updateQuantity_frame)
    from assms tin have q: "qtyTimers st (c_uid t) = Some (handle t)"
      by (simp add: timers_ok_def)
    with ne have "c_uid t \<noteq> uid item" by auto
    with q lt[OF tin] show ?thesis by (simp add: updateQuantity_frame)
  qed
  with d show ?thesis by (simp add: timers_ok_def)
qed

lemma updates_for_append: "updates_for u (xs @ ys) = updates_for u xs @ updates_for u ys"
  by (simp add: updates_for_def)

lemma updates_for_fire_trace:
  "updates_for u (concat (map (fire_trace h e) ts))
     = (if h then map (rename_call e) (filter (\<lambda>t. c_uid t = u) ts) else [])"
  by (induction ts) (simp_all add: updates_for_def fire_trace_def rename_call_def)

lemma elapse_updates_for:
  "updates_for u (calls (elapse env d st)) =
     updates_for u (calls st) @
     (if hass st
      then map (rename_call (entity st))
             (filter (\<lambda>t. due t \<le> clock st + d) (filter (\<lambda>t. c_uid t = u) (timers st)))
      else [])"
proof -
  have "filter (\<lambda>t. c_uid t = u) (filter (\<lambda>t. due t \<le> clock st + d) (timers st))
        = filter (\<lambda>t. due t \<le> clock st + d) (filter (\<lambda>t. c_uid t = u) (timers st))"
    by (simp add: conj_commute)
  then show ?thesis
    by (simp add: elapse_calls updates_for_append updates_for_fire_trace)
qed

lemma update_then_pause:
  assumes "timers_ok st" and "uid item = u"
  shows "updates_for u (calls (elapse env d (updateQuantity item newQty st))) =
           updates_for u (calls st) @
           (if hass st \<and> 500 \<le> d then [rename_call (entity st) (scheduled item newQty st)] else [])"
  using updateQuantity_own_timer[OF assms(1), of item newQty] assms(2)
  by (simp add: elapse_updates_for updateQuantity_frame scheduled_sel)

lemma rapid_invariant:
  assumes "timers_ok st"
    and "\<forall>(item, newQty, gap) \<in> set cs. uid item = u \<and> gap < 500"
  shows "timers_ok (rapid env cs st) \<and> hass (rapid env cs st) = hass st
         \<and> entity (rapid env cs st) = entity st
         \<and> updates_for u (calls (rapid env cs st)) = updates_for u (calls st)"
  using assms
proof (induction cs arbitrary: st)
  case Nil
  then show ?case by simp
next
  case (Cons c cs)
  obtain item newQty gap where c: "c = (item, newQty, gap)" by (cases c)
  from Cons.prems(2) c have u: "uid item = u" and g: "gap < 500" by simp_all
  let ?st = "elapse env gap (updateQuantity item newQty st)"
  have ok: "timers_ok ?st"
    by (intro elapse_timers_ok updateQuantity_timers_ok Cons.prems(1))
  have rest: "\<forall>(item, newQty, gap) \<in> set cs. uid item = u \<and> gap < 500"
    using Cons.prems(2) by simp
  from update_then_pause[OF Cons.prems(1) u, of env gap newQty] g
  have "updates_for u (calls ?st) = updates_for u (calls st)" by simp
  with Cons.IH[OF ok rest] show ?case
    by (simp add: c elapse_frame updateQuantity_frame)
qed

lemma rapid_append: "rapid env (cs @ ds) st = rapid env ds (rapid env cs st)"
  by (induction cs arbitrary: st) auto

lemma find_mutate_first:
  assumes "\<And>x. p x \<Longrightarrow> p (f x)"
  shows "find p (mutate_first p f xs) = map_option f (find p xs)"
  using assms by (induction xs) auto

lemma find_by_uid:
  assumes "find P xs = Some a" and "distinct (map uid xs)"
  shows "find (\<lambda>i. uid i = uid a) xs = Some a"
  using assms
proof (induction xs)
  case Nil
  then show ?case by simp
next
  case (Cons x xs)
  show ?case
  proof (cases "P x")
    case True
    with Cons.prems show ?thesis by simp
  next
    case False
    with Cons.prems have f: "find P xs = Some a" and d: "distinct (map uid xs)"
      and nx: "uid x \<notin> uid ` set xs" by simp_all
    from f have "a \<in> set xs" by (auto simp: find_Some_iff)
    with nx have "uid x \<noteq> uid a" by auto
    with Cons.IH[OF f d] show ?thesis by simp
  qed
qed

text \<open>
  Claim C2: calls of \<^verbatim>\<open>_updateQuantity\<close> on one item that follow one another within
  less than 500 ms, and then a pause of 500 ms or more, add exactly one \<^verbatim>\<open>update_item\<close>
  call for that item to the trace of remote calls. Its summary is the one computed by the
  last call, with the last requested quantity (clamped to 1). After every call, the
  timeout it set is the only pending one for the item.
\<close>

theorem updateQuantity_debounce_coalesces:
  assumes "timers_ok st" and "hass st"
    and "\<forall>(item', newQty', gap) \<in> set earlier. uid item' = uid item \<and> gap < 500"
    and "500 \<le> quiet"
  shows "(let before = rapid env earlier st;
              li = find (\<lambda>i. uid i = uid item) (items before);
              name' = (case li of Some l \<Rightarrow> name l | None \<Rightarrow> name item);
              notes' = (case li of Some l \<Rightarrow> notes l | None \<Rightarrow> notes item);
              category' = (case li of Some l \<Rightarrow> category l | None \<Rightarrow> category item)
          in updates_for (uid item) (calls (rapid env (earlier @ [(item, newQty, quiet)]) st))
               = updates_for (uid item) (calls st) @
                 [CallService ''update_item''
                    (Item_rename (uid item) (formatSummary name' (max 1 newQty) notes' category'))
                    (entity st)]
             \<and> filter (\<lambda>t. c_uid t = uid item) (timers (updateQuantity item newQty before))
                 = [scheduled item newQty before])"
proof -
  let ?before = "rapid env earlier st"
  from rapid_invariant[OF assms(1,3)]
  have ok: "timers_ok ?before" and h: "hass ?before = hass st" and e: "entity ?before = entity st"
    and u: "updates_for (uid item) (calls ?before) = updates_for (uid item) (calls st)"
    by simp_all
  have "updates_for (uid item) (calls (elapse env quiet (updateQuantity item newQty ?before)))
          = updates_for (uid item) (calls st) @ [rename_call (entity st) (scheduled item newQty ?before)]"
    using update_then_pause[OF ok refl, where env = env and d = quiet and item = item and newQty = newQty]
      assms(2,4) h e u by simp
  then show ?thesis
    using updateQuantity_own_timer[OF ok, of item newQty]
    by (simp add: Let_def rapid_append rename_call_def scheduled_def)
qed

theorem updateQuantity_debounce_coalesces_witness:
  "calls (rapid offline [(milk, Finite 2, 100), (milk, Finite 3, 100), (milk, Finite 4, 500)] pantry)
     = [CallService ''update_item'' (Item_rename ''1'' ''Milk (4)'') ''todo.shopping'',
        CallWS ''todo.shopping'']
   \<and> updates_for ''1'' (calls (rapid offline ([(milk, Finite 2, 100), (milk, Finite 3, 100)] @ [(milk, Finite 4, 500)]) pantry))
     = updates_for ''1'' (calls pantry) @
       [CallService ''update_item'' (Item_rename ''1'' ''Milk (4)'') ''todo.shopping'']"
proof -
  have h1: "timers_ok pantry" by code_simp
  have h2: "hass pantry" by code_simp
  have h3: "\<forall>(item', newQty', gap) \<in> set [(milk, Finite 2, 100), (milk, Finite 3, 100)].
              uid item' = uid milk \<and> gap < (500::nat)"
    by code_simp
  have h4: "(500::nat) \<le> 500" by simp
  have v: "calls (rapid offline [(milk, Finite 2, 100), (milk, Finite 3, 100), (milk, Finite 4, 500)] pantry)
     = [CallService ''update_item'' (Item_rename ''1'' ''Milk (4)'') ''todo.shopping'',
        CallWS ''todo.shopping'']"
    by code_simp
  have f: "find (\<lambda>i. uid i = ''1'') (items (rapid offline [(milk, Finite 2, 100), (milk, Finite 3, 100)] pantry))
             = Some (milk\<lparr>quantity := Finite 3, summary := ''Milk (3)''\<rparr>)"
    by code_simp
  have m: "uid milk = ''1''" "name milk = ''Milk''" "notes milk = []" "category milk = []"
    by (simp_all add: milk_def)
  have s: "formatSummary ''Milk'' (Finite 4) [] [] = ''Milk (4)''" by code_simp
  have e: "entity pantry = ''todo.shopping''" by code_simp
  from updateQuantity_debounce_coalesces[OF h1 h2 h3 h4, of offline "Finite 4"]
  have "updates_for ''1'' (calls (rapid offline ([(milk, Finite 2, 100), (milk, Finite 3, 100)] @ [(milk, Finite 4, 500)]) pantry))
     = updates_for ''1'' (calls pantry) @
       [CallService ''update_item'' (Item_rename ''1'' ''Milk (4)'') ''todo.shopping'']"
    by (simp add: Let_def f m s e del: rapid.simps)
  with v show ?thesis by simp
qed

text \<open>
  Claim C9: a call of \<^verbatim>\<open>_updateQuantity\<close> with a requested value of 1 or less sets the
  quantity of the cached item to 1 at once, and the write it schedules, issued once 500 ms
  have passed, carries the summary encoded with quantity 1.
\<close>

theorem updateQuantity_clamps_to_one:
  assumes "newQty \<le> 1" and "timers_ok st" and "hass st" and "500 \<le> quiet"
  shows "(let li = find (\<lambda>i. uid i = uid item) (items st);
              name' = (case li of Some l \<Rightarrow> name l | None \<Rightarrow> name item);
              notes' = (case li of Some l \<Rightarrow> notes l | None \<Rightarrow> notes item);
              category' = (case li of Some l \<Rightarrow> category l | None \<Rightarrow> category item)
          in find (\<lambda>i. uid i = uid item) (items (updateQuantity item newQty st))
               = map_option (\<lambda>l. l\<lparr>quantity := 1,
                                     summary := formatSummary name' 1 notes' category'\<rparr>) li
             \<and> c_q (scheduled item newQty st) = 1
             \<and> updates_for (uid item)
                 (calls (elapse env quiet (updateQuantity item newQty st)))
               = updates_for (uid item) (calls st) @
                 [CallService ''update_item''
                    (Item_rename (uid item) (formatSummary name' 1 notes' category'))
                    (entity st)])"
proof -
  have q: "max 1 newQty = 1" using assms(1) by (rule max.absorb1)
  have "find (\<lambda>i. uid i = uid item) (items (updateQuantity item newQty st))
          = map_option (\<lambda>l. l\<lparr>quantity := 1,
               summary := formatSummary (c_name (scheduled item newQty st)) 1
                            (c_notes (scheduled item newQty st))
                            (c_category (scheduled item newQty st))\<rparr>)
              (find (\<lambda>i. uid i = uid item) (items st))"
    by (simp add: updateQuantity_eq q find_mutate_first)
  moreover have "updates_for (uid item) (calls (elapse env quiet (updateQuantity item newQty st)))
          = updates_for (uid item) (calls st) @ [rename_call (entity st) (scheduled item newQty st)]"
    using update_then_pause[OF assms(2) refl, where env = env and d = quiet and item = item
        and newQty = newQty] assms(3,4)
    by simp
  ultimately show ?thesis
    by (simp add: Let_def rename_call_def scheduled_def q)
qed

theorem updateQuantity_clamps_to_one_witness:
  "find (\<lambda>i. uid i = ''1'') (items (updateQuantity milk 0 pantry))
     = Some (milk\<lparr>quantity := 1, summary := ''Milk''\<rparr>)
   \<and> updates_for ''1'' (calls (elapse offline 500 (updateQuantity milk 0 pantry)))
     = [CallService ''update_item'' (Item_rename ''1'' ''Milk'') ''todo.shopping'']
   \<and> find (\<lambda>i. uid i = ''1'') (items (updateQuantity milk (Finite (- 3)) pantry))
     = Some (milk\<lparr>quantity := 1, summary := ''Milk''\<rparr>)"
proof -
  have h1: "(0::number) \<le> 1" by simp
  have h2: "timers_ok pantry" by code_simp
  have h3: "hass pantry" by code_simp
  have h4: "(500::nat) \<le> 500" by simp
  have f: "find (\<lambda>i. uid i = ''1'') (items pantry) = Some milk" by code_simp
  have m: "uid milk = ''1''" "name milk = ''Milk''" "notes milk = []" "category milk = []"
    by (simp_all add: milk_def)
  have s: "formatSummary ''Milk'' 1 [] [] = ''Milk''" by code_simp
  have e: "entity pantry = ''todo.shopping''" "calls pantry = []" by code_simp+
  have u: "updates_for ''1'' [] = []" by code_simp
  have v: "find (\<lambda>i. uid i = ''1'') (items (updateQuantity milk (Finite (- 3)) pantry))
     = Some (milk\<lparr>quantity := 1, summary := ''Milk''\<rparr>)"
    by code_simp
  from updateQuantity_clamps_to_one[OF h1 h2 h3 h4, of milk offline] v
  show ?thesis
    by (simp add: Let_def f m s e u)
qed

lemma service_calls_append: "service_calls (xs @ ys) = service_calls xs @ service_calls ys"
  by (simp add: service_calls_def)

lemma add_calls_append: "add_calls (xs @ ys) = add_calls xs @ add_calls ys"
  by (simp add: add_calls_def)

lemma add_calls_fire_trace: "add_calls (concat (map (fire_trace h e) ts)) = []"
  by (induction ts) (simp_all add: add_calls_def fire_trace_def rename_call_def)

lemma addCurrentInput_empty:
  "trim (inputValue st) = [] \<Longrightarrow> addCurrentInput env st = (None, st)"
  by (simp add: addCurrentInput_def)

lemma addCurrentInput_active:
  assumes "trim (inputValue st) \<noteq> []"
    and "find (\<lambda>i. status i = ''needs_action''
                   \<and> toLowerCase (name i) = toLowerCase (trim (inputValue st))) (items st) = Some a"
  shows "addCurrentInput env st
           = (None, (updateQuantity a (plus_one (quantity a)) st)\<lparr>inputValue := []\<rparr>)"
  using assms by (simp add: addCurrentInput_def andThen_def Let_def)

lemma addCurrentInput_completed:
  assumes "trim (inputValue st) \<noteq> []"
    and "find (\<lambda>i. status i = ''needs_action''
                   \<and> toLowerCase (name i) = toLowerCase (trim (inputValue st))) (items st) = None"
    and "find (\<lambda>i. status i = ''completed''
                   \<and> toLowerCase (name i) = toLowerCase (trim (inputValue st))) (items st) = Some c"
  shows "addCurrentInput env st
           = (None, (snd (fetchItems env
                (snd (callService env ''update_item'' (Item_status (uid c) ''needs_action'') st))))
                \<lparr>inputValue := []\<rparr>)"
  using assms by (simp add: addCurrentInput_def andThen_def Let_def callService_eq fetchItems_eq)

lemma addCurrentInput_new:
  assumes "trim (inputValue st) \<noteq> []"
    and "find (\<lambda>i. status i = ''needs_action''
                   \<and> toLowerCase (name i) = toLowerCase (trim (inputValue st))) (items st) = None"
    and "find (\<lambda>i. status i = ''completed''
                   \<and> toLowerCase (name i) = toLowerCase (trim (inputValue st))) (items st) = None"
  shows "addCurrentInput env st
           = (None, (snd (fetchItems env
                (snd (callService env ''add_item''
                        (Item (formatSummary (trim (inputValue st)) 1 [] [])) st))))
                \<lparr>inputValue := []\<rparr>)"
  using assms
  by (simp add: addCurrentInput_def addItem_def andThen_def Let_def callService_eq fetchItems_eq)

lemma immediate_write:
  assumes "hass st"
  shows "service_calls (calls (snd (fetchItems env (snd (callService env s d st)))))
           = service_calls (calls st) @ [CallService s d (entity st)]"
    and "timers (snd (fetchItems env (snd (callService env s d st)))) = timers st"
  using assms
  by (simp_all add: callService_eq fetchItems_eq service_calls_def split: sum.split)

text \<open>
  Claim C3, as stated, fails for an active item whose quantity is \<open>2 ^ 53\<close> or more: the
  card adds 1 to a double. The item decoded from \<open>Milk (9007199254740992)\<close> has the
  quantity \<open>2 ^ 53\<close>, and the write that follows the input \<open>milk\<close> carries the same
  quantity, not the next one.
\<close>

theorem addCurrentInput_increment_counterexample:
  "items (snd (fetchItems stocked (initial ''todo.shopping'')))
     = [\<lparr>uid = ''1'', name = ''Milk'', quantity = Finite (2 ^ 53), notes = [], category = [],
         status = ''needs_action'', summary = ''Milk (9007199254740992)''\<rparr>]
   \<and> updates_for ''1''
        (calls (elapse stocked 500
           (snd (addCurrentInput stocked
              ((snd (fetchItems stocked (initial ''todo.shopping'')))\<lparr>inputValue := ''milk''\<rparr>)))))
     = [CallService ''update_item'' (Item_rename ''1'' ''Milk (9007199254740992)'')
          ''todo.shopping'']
   \<and> plus_one (Finite (2 ^ 53)) = Finite (2 ^ 53)"
  by code_simp

text \<open>
  Claim C3, amended: with a non-empty trimmed input on a connected card, \<^verbatim>\<open>_addCurrentInput\<close>
  takes one of three branches, chosen by the case-insensitive lookup of the name in the
  snapshot. An active item of that name: no remote call is issued at once, the quantity
  goes through \<^verbatim>\<open>_updateQuantity\<close>, and once 500 ms have passed the trace has gained exactly
  one \<^verbatim>\<open>update_item\<close> call for the item, with the sum of its quantity and 1 as the card
  computes it, and no \<^verbatim>\<open>add_item\<close> call; for a quantity below \<open>2 ^ 53\<close> this sum is the
  quantity plus one. Otherwise a completed item of that name: one \<^verbatim>\<open>update_item\<close> call that
  sets its status to \<^verbatim>\<open>needs_action\<close> is issued at once, and no timeout is set. Otherwise:
  one \<^verbatim>\<open>add_item\<close> call with the name encoded with quantity 1 is issued at once.
\<close>

theorem addCurrentInput_three_branches:
  assumes "hass st" and "timers_ok st" and "distinct (map uid (items st))"
    and "\<forall>i \<in> set (items st). 0 \<le> quantity i"
    and "trim (inputValue st) \<noteq> []" and "500 \<le> quiet"
  shows "(let name' = trim (inputValue st);
              st' = snd (addCurrentInput env st)
          in case find (\<lambda>i. status i = ''needs_action''
                             \<and> toLowerCase (name i) = toLowerCase name') (items st) of
               Some active \<Rightarrow>
                 calls st' = calls st
                 \<and> filter (\<lambda>t. c_uid t = uid active) (timers st')
                     = [scheduled active (plus_one (quantity active)) st]
                 \<and> updates_for (uid active) (calls (elapse env quiet st'))
                     = updates_for (uid active) (calls st) @
                       [CallService ''update_item''
                          (Item_rename (uid active)
                             (formatSummary (name active) (plus_one (quantity active))
                                (notes active) (category active)))
                          (entity st)]
                 \<and> add_calls (calls (elapse env quiet st')) = add_calls (calls st)
                 \<and> (\<forall>q. quantity active = Finite q \<and> q < 2 ^ 53
                          \<longrightarrow> plus_one (quantity active) = Finite (q + 1))
             | None \<Rightarrow>
                 (case find (\<lambda>i. status i = ''completed''
                                  \<and> toLowerCase (name i) = toLowerCase name') (items st) of
                    Some completed \<Rightarrow>
                      service_calls (calls st')
                        = service_calls (calls st) @
                          [CallService ''update_item''
                             (Item_status (uid completed) ''needs_action'') (entity st)]
                      \<and> timers st' = timers st
                  | None \<Rightarrow>
                      service_calls (calls st')
                        = service_calls (calls st) @
                          [CallService ''add_item'' (Item (formatSummary name' 1 [] []))
                             (entity st)]
                      \<and> timers st' = timers st))"
proof (cases "find (\<lambda>i. status i = ''needs_action''
                   \<and> toLowerCase (name i) = toLowerCase (trim (inputValue st))) (items st)")
  case (Some a)
  let ?st' = "(updateQuantity a (plus_one (quantity a)) st)\<lparr>inputValue := []\<rparr>"
  have st': "snd (addCurrentInput env st) = ?st'"
    using addCurrentInput_active[OF assms(5) Some] by simp
  have li: "find (\<lambda>i. uid i = uid a) (items st) = Some a"
    using Some assms(3) by (rule find_by_uid)
  have "a \<in> set (items st)" using Some by (auto simp: find_Some_iff)
  with assms(4) have nonneg: "0 \<le> quantity a" by simp
  then have "1 \<le> plus_one (quantity a)" by (rule plus_one_at_least_one)
  then have q: "max 1 (plus_one (quantity a)) = plus_one (quantity a)" by (rule max.absorb2)
  have exact: "plus_one (quantity a) = Finite (i + 1)" if "quantity a = Finite i" and "i < 2 ^ 53" for i
  proof -
    from nonneg that(1) have "- (2 ^ 53) < i" by simp
    from plus_one_exact[OF this that(2)] that(1) show ?thesis by simp
  qed
  have own: "filter (\<lambda>t. c_uid t = uid a) (timers ?st') = [scheduled a (plus_one (quantity a)) st]"
    using updateQuantity_own_timer[OF assms(2), of a "plus_one (quantity a)"] by simp
  have tm: "timers ?st' = timers (updateQuantity a (plus_one (quantity a)) st)" by simp
  have "updates_for (uid a) (calls (elapse env quiet ?st'))
          = updates_for (uid a) (calls st) @ [rename_call (entity st) (scheduled a (plus_one (quantity a)) st)]"
    using own assms(1,6)
    by (simp add: elapse_updates_for updateQuantity_frame scheduled_sel)
  moreover have "rename_call (entity st) (scheduled a (plus_one (quantity a)) st)
          = CallService ''update_item''
              (Item_rename (uid a) (formatSummary (name a) (plus_one (quantity a)) (notes a) (category a)))
              (entity st)"
    by (simp add: rename_call_def scheduled_def li q)
  moreover have "add_calls (calls (elapse env quiet ?st')) = add_calls (calls st)"
    by (simp add: elapse_calls add_calls_append add_calls_fire_trace updateQuantity_frame)
  moreover have "calls ?st' = calls st" by (simp add: updateQuantity_frame)
  ultimately show ?thesis using Some st' own exact by (simp add: Let_def)
next
  case None
  show ?thesis
  proof (cases "find (\<lambda>i. status i = ''completed''
                   \<and> toLowerCase (name i) = toLowerCase (trim (inputValue st))) (items st)")
    case (Some c)
    show ?thesis
      using None Some addCurrentInput_completed[OF assms(5) None Some, of env]
        immediate_write[OF assms(1), of env "''update_item''" "Item_status (uid c) ''needs_action''"]
      by (simp add: Let_def)
  next
    case none: None
    show ?thesis
      using None none addCurrentInput_new[OF assms(5) None none, of env]
        immediate_write[OF assms(1), of env "''add_item''"
          "Item (formatSummary (trim (inputValue st)) 1 [] [])"]
      by (simp add: Let_def)
  qed
qed

theorem addCurrentInput_three_branches_witness:
  "updates_for ''1'' (calls (elapse offline 500 (snd (addCurrentInput offline (typed '' milk '')))))
     = [CallService ''update_item'' (Item_rename ''1'' ''Milk (2)'') ''todo.shopping'']
   \<and> calls (snd (addCurrentInput offline (typed '' milk ''))) = []
   \<and> add_calls (calls (elapse offline 500 (snd (addCurrentInput offline (typed '' milk ''))))) = []
   \<and> service_calls (calls (snd (addCurrentInput offline (typed ''RICE''))))
     = [CallService ''update_item'' (Item_status ''2'' ''needs_action'') ''todo.shopping'']
   \<and> service_calls (calls (snd (addCurrentInput offline (typed ''Eggs''))))
     = [CallService ''add_item'' (Item ''Eggs'') ''todo.shopping'']"
proof -
  have h1: "hass (typed v)" for v by (simp add: typed_def pantry_def initial_def)
  have h2: "timers_ok (typed v)" for v
    by (simp add: typed_def pantry_def initial_def timers_ok_def)
  have h3: "distinct (map uid (items (typed v)))" for v
    by (simp add: typed_def pantry_def initial_def milk_def rice_def)
  have h4: "\<forall>i \<in> set (items (typed v)). 0 \<le> quantity i" for v
    by (simp add: typed_def pantry_def initial_def milk_def rice_def)
  have h6: "(500::nat) \<le> 500" by simp
  have i: "entity (typed v) = ''todo.shopping''" "calls (typed v) = []" for v
    by (simp_all add: typed_def pantry_def initial_def)
  have m: "uid milk = ''1''" "name milk = ''Milk''" "notes milk = []" "category milk = []"
    "uid rice = ''2''"
    by (simp_all add: milk_def rice_def)
  have mq: "quantity milk = Finite 1" by (simp add: milk_def one_number_def)
  have e: "updates_for ''1'' [] = []" "add_calls [] = []" "service_calls [] = []"
    by (simp_all add: updates_for_def add_calls_def service_calls_def)

  have a5: "trim (inputValue (typed '' milk '')) \<noteq> []" by code_simp
  have a: "trim (inputValue (typed '' milk '')) = ''milk''" by code_simp
  have af: "find (\<lambda>i. status i = ''needs_action''
                       \<and> toLowerCase (name i) = toLowerCase ''milk'') (items (typed '' milk '')) = Some milk"
    by code_simp
  have as: "formatSummary ''Milk'' (Finite 2) [] [] = ''Milk (2)''" by code_simp
  note A = addCurrentInput_three_branches[OF h1 h2 h3 h4 a5 h6, of offline]

  have b5: "trim (inputValue (typed ''RICE'')) \<noteq> []" by code_simp
  have b: "trim (inputValue (typed ''RICE'')) = ''RICE''" by code_simp
  have bf: "find (\<lambda>i. status i = ''needs_action''
                       \<and> toLowerCase (name i) = toLowerCase ''RICE'') (items (typed ''RICE'')) = None"
    "find (\<lambda>i. status i = ''completed''
                 \<and> toLowerCase (name i) = toLowerCase ''RICE'') (items (typed ''RICE'')) = Some rice"
    by code_simp+
  note B = addCurrentInput_three_branches[OF h1 h2 h3 h4 b5 h6, of offline]

  have c5: "trim (inputValue (typed ''Eggs'')) \<noteq> []" by code_simp
  have c: "trim (inputValue (typed ''Eggs'')) = ''Eggs''" by code_simp
  have cf: "find (\<lambda>i. status i = ''needs_action''
                       \<and> toLowerCase (name i) = toLowerCase ''Eggs'') (items (typed ''Eggs'')) = None"
    "find (\<lambda>i. status i = ''completed''
                 \<and> toLowerCase (name i) = toLowerCase ''Eggs'') (items (typed ''Eggs'')) = None"
    by code_simp+
  have cs: "formatSummary ''Eggs'' 1 [] [] = ''Eggs''" by code_simp
  note C = addCurrentInput_three_branches[OF h1 h2 h3 h4 c5 h6, of offline]

  from A have A': "calls (snd (addCurrentInput offline (typed '' milk ''))) = []
      \<and> updates_for ''1'' (calls (elapse offline 500 (snd (addCurrentInput offline (typed '' milk '')))))
          = [CallService ''update_item''
               (Item_rename ''1'' (formatSummary ''Milk'' (plus_one (Finite 1)) [] []))
               ''todo.shopping'']
      \<and> add_calls (calls (elapse offline 500 (snd (addCurrentInput offline (typed '' milk ''))))) = []
      \<and> (\<forall>q. Finite 1 = Finite q \<and> q < 2 ^ 53 \<longrightarrow> plus_one (Finite 1) = Finite (q + 1))"
    by (simp add: Let_def i a af m mq e)
  then have "plus_one (Finite 1) = Finite 2" by simp
  with A' as have "updates_for ''1'' (calls (elapse offline 500 (snd (addCurrentInput offline (typed '' milk '')))))
     = [CallService ''update_item'' (Item_rename ''1'' ''Milk (2)'') ''todo.shopping'']
   \<and> calls (snd (addCurrentInput offline (typed '' milk ''))) = []
   \<and> add_calls (calls (elapse offline 500 (snd (addCurrentInput offline (typed '' milk ''))))) = []"
    by simp
  moreover from B have "service_calls (calls (snd (addCurrentInput offline (typed ''RICE''))))
     = [CallService ''update_item'' (Item_status ''2'' ''needs_action'') ''todo.shopping'']"
    by (simp add: Let_def i b bf m e)
  moreover from C have "service_calls (calls (snd (addCurrentInput offline (typed ''Eggs''))))
     = [CallService ''add_item'' (Item ''Eggs'') ''todo.shopping'']"
    by (simp add: Let_def i c cf cs e)
  ultimately show ?thesis by simp
qed

text \<open>
  Claim C10: when the input field trims to the empty string, \<^verbatim>\<open>_addCurrentInput\<close> returns
  at once: the card, with its snapshot and its pending timeouts, and the trace of remote
  calls are left as they were.
\<close>

theorem addCurrentInput_blank_is_noop:
  assumes "trim (inputValue st) = []"
  shows "addCurrentInput env st = (None, st)"
  using assms by (rule addCurrentInput_empty)

theorem addCurrentInput_blank_is_noop_witness:
  "trim (inputValue (typed [CHR '' '', CHR 0x09, CHR '' ''])) = []
   \<and> addCurrentInput offline (typed [CHR '' '', CHR 0x09, CHR '' ''])
       = (None, typed [CHR '' '', CHR 0x09, CHR '' ''])
   \<and> calls (snd (addCurrentInput offline (typed [CHR '' '', CHR 0x09, CHR '' '']))) = []"
proof -
  have h: "trim (inputValue (typed [CHR '' '', CHR 0x09, CHR '' ''])) = []" by code_simp
  have c: "calls (typed [CHR '' '', CHR 0x09, CHR '' '']) = []"
    by (simp add: typed_def pantry_def initial_def)
  from addCurrentInput_blank_is_noop[OF h, of offline] h c show ?thesis by simp
qed

text \<open>
  Claim C8: on a card with a connection and an entity, \<^verbatim>\<open>_fetchItems\<close> always resolves.
  When the list call resolves, the snapshot becomes the decoded items of the reply; when
  it is rejected, the snapshot is the one before and the error is written to the console.
\<close>

theorem fetchItems_replaces_or_keeps:
  assumes "hass st" and "entity st \<noteq> []"
  shows "fst (fetchItems env st) = None \<and>
         (case ws_reply env (length (calls st)) of
            Inr res \<Rightarrow>
              snd (fetchItems env st)
                = st\<lparr>calls := calls st @ [CallWS (entity st)],
                     items := map from_raw (case res of None \<Rightarrow> [] | Some its \<Rightarrow> its)\<rparr>
          | Inl e \<Rightarrow>
              snd (fetchItems env st)
                = st\<lparr>calls := calls st @ [CallWS (entity st)],
                     console := console st @ [(''ESL: fetch failed'', e)]\<rparr>
              \<and> items (snd (fetchItems env st)) = items st)"
  using assms by (simp add: fetchItems_eq split: sum.split)

theorem fetchItems_replaces_or_keeps_witness:
  "fst (fetchItems online pantry) = None
   \<and> items (snd (fetchItems online pantry))
       = [\<lparr>uid = ''7'', name = ''Bread'', quantity = Finite 3, notes = ''whole grain'',
           category = ''Bakery'', status = ''needs_action'',
           summary = ''Bread (3) [Bakery] // whole grain''\<rparr>]
   \<and> fst (fetchItems offline pantry) = None
   \<and> items (snd (fetchItems offline pantry)) = [milk, rice]
   \<and> console (snd (fetchItems offline pantry)) = [(''ESL: fetch failed'', ''offline'')]"
proof -
  have h1: "hass pantry" by (simp add: pantry_def initial_def)
  have h2: "entity pantry \<noteq> []" by (simp add: pantry_def initial_def)
  have p: "items pantry = [milk, rice]" "console pantry = []" "calls pantry = []"
    by (simp_all add: pantry_def initial_def)
  have r1: "ws_reply online 0 = Inr (Some [\<lparr>raw_uid = ''7'',
                raw_summary = ''Bread (3) [Bakery] // whole grain'',
                raw_status = ''needs_action''\<rparr>])"
    by (simp add: online_def)
  have r2: "ws_reply offline 0 = Inl ''offline''" by (simp add: offline_def)
  have d: "from_raw \<lparr>raw_uid = ''7'', raw_summary = ''Bread (3) [Bakery] // whole grain'',
                     raw_status = ''needs_action''\<rparr>
             = \<lparr>uid = ''7'', name = ''Bread'', quantity = Finite 3, notes = ''whole grain'',
                category = ''Bakery'', status = ''needs_action'',
                summary = ''Bread (3) [Bakery] // whole grain''\<rparr>"
    by code_simp
  from fetchItems_replaces_or_keeps[OF h1 h2, of online]
       fetchItems_replaces_or_keeps[OF h1 h2, of offline]
  show ?thesis by (simp add: p r1 r2 d)
qed

lemma updateName_writes:
  assumes "hass st"
  shows "service_calls (calls (snd (updateName env item newName st)))
           = service_calls (calls st) @
             [CallService ''update_item''
                (Item_rename (uid item)
                   (formatSummary (trim newName) (quantity item) (notes item)
                      (case find (\<lambda>i. uid i = uid item) (items st) of
                         Some l \<Rightarrow> category l | None \<Rightarrow> category item)))
                (entity st)]"
  using assms
  by (simp add: updateName_def andThen_def callService_eq fetchItems_eq service_calls_def
           Let_def split: sum.split)

lemma updateNotes_writes:
  assumes "hass st" and "find (\<lambda>i. uid i = uid item) (items st) = Some l"
  shows "service_calls (calls (snd (updateNotes env item notes' st)))
           = service_calls (calls st) @
             [CallService ''update_item''
                (Item_rename (uid item) (formatSummary (name l) (quantity l) notes' (category l)))
                (entity st)]"
  using assms
  by (simp add: updateNotes_def andThen_def callService_eq fetchItems_eq service_calls_def
           Let_def split: sum.split)

lemma updateCategory_writes:
  assumes "hass st" and "find (\<lambda>i. uid i = uid item) (items st) = Some l"
  shows "service_calls (calls (snd (updateCategory env item category' st)))
           = service_calls (calls st) @
             [CallService ''update_item''
                (Item_rename (uid item) (formatSummary (name l) (quantity l) (notes l) category'))
                (entity st)]"
  using assms
  by (simp add: updateCategory_def andThen_def callService_eq fetchItems_eq service_calls_def
           Let_def split: sum.split)

text \<open>
  Claim C4 does not hold of \<^verbatim>\<open>_updateName\<close>: the cached item has quantity 3 and the note
  \<open>2%\<close>, the caller's copy of it still has quantity 1 and no note, and the summary written
  is \<open>Soy milk\<close>, where the cached values give \<open>Soy milk (3) // 2%\<close>.
\<close>

theorem updateName_writes_stale_fields:
  "service_calls (calls (snd (updateName offline milk '' Soy milk''
      (pantry\<lparr>items := [milk\<lparr>quantity := Finite 3, notes := ''2%''\<rparr>, rice]\<rparr>))))
     = [CallService ''update_item'' (Item_rename ''1'' ''Soy milk'') ''todo.shopping'']
   \<and> formatSummary ''Soy milk'' (Finite 3) ''2%'' [] = ''Soy milk (3) // 2%''"
  by code_simp

subsection \<open>Cards that the engine reaches\<close>

text \<open>
  The hypotheses of the statements above hold of the cards that the engine produces: the
  first card has no timeout, every operation keeps the timeouts registered, and the
  quantities of the snapshot are Numbers that are not negative.
\<close>

lemma timers_ok_initial: "timers_ok (initial e)"
  by (simp add: timers_ok_def initial_def)

lemma timers_ok_same_timers:
  assumes "timers_ok st" and "timers st' = timers st" and "qtyTimers st' = qtyTimers st"
    and "nextHandle st' = nextHandle st"
  shows "timers_ok st'"
  using assms by (simp add: timers_ok_def)

lemma callService_timers:
  "timers (snd (callService env s d st)) = timers st"
  "qtyTimers (snd (callService env s d st)) = qtyTimers st"
  "nextHandle (snd (callService env s d st)) = nextHandle st"
  by (simp_all add: callService_eq)

lemma fetchItems_timers:
  "timers (snd (fetchItems env st)) = timers st"
  "qtyTimers (snd (fetchItems env st)) = qtyTimers st"
  "nextHandle (snd (fetchItems env st)) = nextHandle st"
  by (simp_all add: fetchItems_eq split: sum.split)

lemma addCurrentInput_timers_ok:
  assumes "timers_ok st"
  shows "timers_ok (snd (addCurrentInput env st))"
proof (cases "trim (inputValue st) = []")
  case True
  with assms show ?thesis by (simp add: addCurrentInput_empty)
next
  case False
  show ?thesis
  proof (cases "find (\<lambda>i. status i = ''needs_action''
                   \<and> toLowerCase (name i) = toLowerCase (trim (inputValue st))) (items st)")
    case (Some a)
    have "timers_ok (updateQuantity a (plus_one (quantity a)) st)"
      using assms by (rule updateQuantity_timers_ok)
    then have "timers_ok ((updateQuantity a (plus_one (quantity a)) st)\<lparr>inputValue := []\<rparr>)"
      by (rule timers_ok_same_timers) simp_all
    then show ?thesis using addCurrentInput_active[OF False Some, of env] by simp
  next
    case None
    show ?thesis
    proof (cases "find (\<lambda>i. status i = ''completed''
                   \<and> toLowerCase (name i) = toLowerCase (trim (inputValue st))) (items st)")
      case (Some c)
      have e: "snd (addCurrentInput env st)
                 = (snd (fetchItems env (snd (callService env ''update_item''
                      (Item_status (uid c) ''needs_action'') st))))\<lparr>inputValue := []\<rparr>"
        using addCurrentInput_completed[OF False None Some, of env] by simp
      show ?thesis unfolding e
        by (rule timers_ok_same_timers[OF assms])
           (simp_all add: fetchItems_timers callService_timers)
    next
      case none: None
      have e: "snd (addCurrentInput env st)
                 = (snd (fetchItems env (snd (callService env ''add_item''
                      (Item (formatSummary (trim (inputValue st)) 1 [] [])) st))))
                   \<lparr>inputValue := []\<rparr>"
        using addCurrentInput_new[OF False None none, of env] by simp
      show ?thesis unfolding e
        by (rule timers_ok_same_timers[OF assms])
           (simp_all add: fetchItems_timers callService_timers)
    qed
  qed
qed

lemma lazy_group_result:
  "lazy_group k acc s = Some (a, g) \<Longrightarrow> \<exists>y. k y = Some g"
proof (induction s arbitrary: acc)
  case Nil
  then show ?case by simp
next
  case (Cons c s)
  then show ?case by (cases "k s") (auto split: if_splits)
qed

lemma bracket_rest_result:
  assumes "bracket_rest opn cls ok s = Some g"
  shows "\<forall>c \<in> set g. ok c"
proof (cases "dropWhile js_space s")
  case Nil
  with assms show ?thesis unfolding bracket_rest_def by simp
next
  case (Cons c r)
  with assms have "g = takeWhile ok r" unfolding bracket_rest_def by (simp split: if_splits)
  then show ?thesis by (auto dest: set_takeWhileD)
qed

lemma numeral_value_nonneg: "\<forall>c \<in> set ds. digit c \<Longrightarrow> 0 \<le> numeral_value ds"
proof (induction ds rule: rev_induct)
  case Nil
  then show ?case by (simp add: numeral_value_def)
next
  case (snoc c ds)
  then have "0 \<le> numeral_value ds" and "digit c" by simp_all
  moreover have "(of_char c :: int) = int (of_char c)" by (simp only: of_nat_of_char)
  with \<open>digit c\<close> have "0 \<le> digit_val c" by (simp add: digit_def digit_val_def)
  ultimately show ?case by (simp add: numeral_value_snoc)
qed

lemma parseInt_digits_nonneg: "\<forall>c \<in> set ds. digit c \<Longrightarrow> 0 \<le> parseInt ds"
  unfolding parseInt_def by (intro to_number_nonneg numeral_value_nonneg)

lemma parseSummary_quantity_nonneg: "parseSummary s = (n, q, no, ca) \<Longrightarrow> 0 \<le> q"
proof -
  assume p: "parseSummary s = (n, q, no, ca)"
  then obtain x where q: "q = (case match_quantity x of Some (g1, g2) \<Rightarrow> parseInt g2 | None \<Rightarrow> 1)"
    unfolding parseSummary_def Let_def by blast
  show ?thesis
  proof (cases "match_quantity x")
    case None
    with q show ?thesis by simp
  next
    case (Some r)
    obtain g1 g2 where r: "r = (g1, g2)" by (cases r)
    from Some r lazy_group_result[of "bracket_rest (CHR ''('') (CHR '')'') digit" "[]" x g1 g2]
    obtain y where "bracket_rest (CHR ''('') (CHR '')'') digit y = Some g2"
      unfolding match_quantity_def by blast
    then have "\<forall>c \<in> set g2. digit c" by (rule bracket_rest_result)
    then have "0 \<le> parseInt g2" by (rule parseInt_digits_nonneg)
    with q Some r show ?thesis by simp
  qed
qed

lemma from_raw_quantity_nonneg: "0 \<le> quantity (from_raw it)"
proof -
  obtain n q no ca where p: "parseSummary (raw_summary it) = (n, q, no, ca)"
    by (cases "parseSummary (raw_summary it)") auto
  then have "0 \<le> q" by (rule parseSummary_quantity_nonneg)
  with p show ?thesis by (simp add: from_raw_def)
qed

lemma fetchItems_quantities:
  assumes "\<forall>i \<in> set (items st). 0 \<le> quantity i"
  shows "\<forall>i \<in> set (items (snd (fetchItems env st))). 0 \<le> quantity i"
proof (cases "hass st \<and> entity st \<noteq> []")
  case False
  then have "snd (fetchItems env st) = st" unfolding fetchItems_eq by (simp only: if_False snd_conv)
  with assms show ?thesis by simp
next
  case True
  show ?thesis
  proof (cases "ws_reply env (length (calls st))")
    case (Inl e)
    with True assms show ?thesis by (simp add: fetchItems_eq)
  next
    case (Inr res)
    with True show ?thesis by (simp add: fetchItems_eq from_raw_quantity_nonneg)
  qed
qed

lemma set_mutate_first: "set (mutate_first p f xs) \<subseteq> set xs \<union> f ` set xs"
  by (induction xs) auto

lemma updateQuantity_quantities:
  assumes "\<forall>i \<in> set (items st). 0 \<le> quantity i"
  shows "\<forall>i \<in> set (items (updateQuantity item newQty st)). 0 \<le> quantity i"
proof
  fix i assume "i \<in> set (items (updateQuantity item newQty st))"
  then have "i \<in> set (mutate_first (\<lambda>i. uid i = uid item)
                 (\<lambda>l. l\<lparr>quantity := max 1 newQty,
                        summary := formatSummary (c_name (scheduled item newQty st)) (max 1 newQty)
                                     (c_notes (scheduled item newQty st))
                                     (c_category (scheduled item newQty st))\<rparr>)
                 (items st))"
    by (simp add: updateQuantity_eq)
  with set_mutate_first have "i \<in> set (items st) \<or> quantity i = max 1 newQty" by fastforce
  moreover have "(0::number) \<le> max 1 newQty" by (simp add: le_max_iff_disj)
  ultimately show "0 \<le> quantity i" using assms by auto
qed

lemma parseInt_number: "\<forall>c \<in> set ds. digit c \<Longrightarrow> is_number (parseInt ds)"
  unfolding parseInt_def by (intro is_number_to_number numeral_value_nonneg)

lemma parseSummary_quantity_number: "parseSummary s = (n, q, no, ca) \<Longrightarrow> is_number q"
proof -
  assume p: "parseSummary s = (n, q, no, ca)"
  then obtain x where q: "q = (case match_quantity x of Some (g1, g2) \<Rightarrow> parseInt g2 | None \<Rightarrow> 1)"
    unfolding parseSummary_def Let_def by blast
  show ?thesis
  proof (cases "match_quantity x")
    case None
    with q show ?thesis by (simp add: is_number_one)
  next
    case (Some r)
    obtain g1 g2 where r: "r = (g1, g2)" by (cases r)
    from Some r lazy_group_result[of "bracket_rest (CHR ''('') (CHR '')'') digit" "[]" x g1 g2]
    obtain y where "bracket_rest (CHR ''('') (CHR '')'') digit y = Some g2"
      unfolding match_quantity_def by blast
    then have "\<forall>c \<in> set g2. digit c" by (rule bracket_rest_result)
    then have "is_number (parseInt g2)" by (rule parseInt_number)
    with q Some r show ?thesis by simp
  qed
qed

lemma from_raw_quantity_number: "is_number (quantity (from_raw it))"
proof -
  obtain n q no ca where p: "parseSummary (raw_summary it) = (n, q, no, ca)"
    by (cases "parseSummary (raw_summary it)") auto
  then have "is_number q" by (rule parseSummary_quantity_number)
  with p show ?thesis by (simp add: from_raw_def)
qed

lemma fetchItems_numbers:
  assumes "\<forall>i \<in> set (items st). is_number (quantity i)"
  shows "\<forall>i \<in> set (items (snd (fetchItems env st))). is_number (quantity i)"
proof (cases "hass st \<and> entity st \<noteq> []")
  case False
  then have "snd (fetchItems env st) = st" unfolding fetchItems_eq by (simp only: if_False snd_conv)
  with assms show ?thesis by simp
next
  case True
  show ?thesis
  proof (cases "ws_reply env (length (calls st))")
    case (Inl e)
    with True assms show ?thesis by (simp add: fetchItems_eq)
  next
    case (Inr res)
    with True show ?thesis by (simp add: fetchItems_eq from_raw_quantity_number)
  qed
qed

lemma updateQuantity_numbers:
  assumes "\<forall>i \<in> set (items st). is_number (quantity i)" and "is_number newQty"
  shows "\<forall>i \<in> set (items (updateQuantity item newQty st)). is_number (quantity i)"
proof
  fix i assume "i \<in> set (items (updateQuantity item newQty st))"
  then have "i \<in> set (mutate_first (\<lambda>i. uid i = uid item)
                 (\<lambda>l. l\<lparr>quantity := max 1 newQty,
                        summary := formatSummary (c_name (scheduled item newQty st)) (max 1 newQty)
                                     (c_notes (scheduled item newQty st))
                                     (c_category (scheduled item newQty st))\<rparr>)
                 (items st))"
    by (simp add: updateQuantity_eq)
  with set_mutate_first have "i \<in> set (items st) \<or> quantity i = max 1 newQty" by fastforce
  moreover have "is_number (max 1 newQty)" using assms(2) by (rule max_one_number)
  ultimately show "is_number (quantity i)" using assms(1) by auto
qed

end
